theory Spec2Isabelle
  imports Complex_Main
begin

section \<open>Conventions\<close>

text \<open>
  The game core is TypeScript. A JavaScript \<open>number\<close> is modelled as a HOL \<open>real\<close>
  (rounding, NaN and the infinities are left out), a counter that only takes the values
  0, 1, 2, ... as a \<open>nat\<close>. A configuration entry read as \<open>cfg.x ?? d\<close> is a field of type
  \<open>real option\<close> read through \<open>orDefault\<close>; an entry read without a default is a plain field.
  \<open>GameConfig\<close> itself (config.ts) is not among the sources, so every function takes the
  configuration values it reads as a parameter.
\<close>

definition orDefault :: "'a option \<Rightarrow> 'a \<Rightarrow> 'a" where
  "orDefault v d = (case v of None \<Rightarrow> d | Some x \<Rightarrow> x)"

text \<open>\<open>Phaser.Math.Clamp(value, min, max) = Math.max(min, Math.min(max, value))\<close>.\<close>

definition Clamp :: "real \<Rightarrow> real \<Rightarrow> real \<Rightarrow> real" where
  "Clamp v lo hi = max lo (min hi v)"

datatype rating = PERFECT | NORMAL | FAILED

section \<open>SlimeHealthManager\<close>

record SlimeHealthManager =
  invincible :: bool
  currentHealth :: real
  maxHealth :: real
  isDead :: bool
  damageTextTimer :: real
  healthBarVisibleTimer :: real
  PIXELS_PER_METER :: real

definition SAFE_ZONE_METERS :: real where
  "SAFE_ZONE_METERS = 100"

definition INSTANT_DEATH_METERS :: real where
  "INSTANT_DEATH_METERS = 1000"

definition HEALTH_BAR_SHOW_DURATION :: real where
  "HEALTH_BAR_SHOW_DURATION = 1.5"

definition die :: "SlimeHealthManager \<Rightarrow> SlimeHealthManager" where
  "die hm = (if invincible hm then hm else hm\<lparr>isDead := True, currentHealth := 0\<rparr>)"

definition showDamageText :: "SlimeHealthManager \<Rightarrow> SlimeHealthManager" where
  "showDamageText hm = hm\<lparr>damageTextTimer := 1.0\<rparr>"

definition takeDamage :: "SlimeHealthManager \<Rightarrow> real \<Rightarrow> SlimeHealthManager" where
  "takeDamage hm damage =
     (if isDead hm \<or> invincible hm \<or> damage \<le> 0 then hm
      else
        let hm1 = hm\<lparr>currentHealth := max 0 (currentHealth hm - damage)\<rparr>;
            hm2 = showDamageText hm1;
            hm3 = hm2\<lparr>healthBarVisibleTimer := HEALTH_BAR_SHOW_DURATION\<rparr>
        in if currentHealth hm3 \<le> 0 then die hm3 else hm3)"

definition calculateDamage :: "SlimeHealthManager \<Rightarrow> real \<Rightarrow> real" where
  "calculateDamage hm heightMeters =
     (if heightMeters \<le> SAFE_ZONE_METERS then 0
      else if heightMeters \<ge> INSTANT_DEATH_METERS then currentHealth hm
      else
        let normalizedHeight = heightMeters - SAFE_ZONE_METERS;
            maxNormalizedHeight = INSTANT_DEATH_METERS - SAFE_ZONE_METERS;
            rawDamage = 100 * (normalizedHeight / maxNormalizedHeight)
        in min 100 (max 0 rawDamage))"

definition onLanding :: "SlimeHealthManager \<Rightarrow> real \<Rightarrow> rating \<Rightarrow> bool \<Rightarrow> SlimeHealthManager" where
  "onLanding hm heightPixels r lockout =
     (if isDead hm \<or> invincible hm then hm
      else
        let heightMeters = heightPixels / PIXELS_PER_METER hm
        in if lockout \<and> heightMeters > SAFE_ZONE_METERS then die hm
           else if r = PERFECT then hm
           else if heightMeters \<le> SAFE_ZONE_METERS then hm
           else if r = NORMAL then takeDamage hm (calculateDamage hm heightMeters)
           else hm)"

section \<open>The player entity and the charging state\<close>

datatype SlimeState = GROUNDED_IDLE | AIRBORNE | GROUND_CHARGING

text \<open>
  The fields of \<open>Slime\<close> that the charging state reads or writes on a release.
  \<open>groundY\<close> stands for the value of \<open>getGroundY()\<close>, which the ground collaborator
  determines. \<open>lastLaunchRating\<close> is \<open>None\<close> for the initial empty string.
\<close>

record Slime =
  state :: SlimeState
  y :: real
  vy :: real
  groundY :: real
  targetCompression :: real
  currentCompression :: real
  reachedPeak :: bool
  chargeEfficiency :: real
  contactHasInput :: bool
  postPeakHoldTime :: real
  holdLockout :: bool
  prevVyForApex :: real
  lastApexHeight :: real
  landingApexHeight :: real
  landingDifficulty :: real
  landingFallDistance :: real
  landingFastFallDistance :: real
  groundRecoverTau :: real
  isInYellowZone :: bool
  yellowZoneStartTime :: real
  lastLaunchRating :: "rating option"
  perfectStreak :: nat
  healthManager :: SlimeHealthManager

record GroundConfig =
  settleEps :: "real option"
  deadEfficiency :: "real option"
  sweetHoldGrace0 :: "real option"
  sweetHoldGrace :: "real option"
  sweetHoldGraceMin :: "real option"
  softCapVelocity :: "real option"
  softCapFactor :: "real option"
  releaseRecoverTime :: "real option"
  baseLaunchVelocity :: real
  hardCapVelocity :: real

record GameConfig =
  gravity :: real
  ground :: GroundConfig

definition IdleState_enter :: "Slime \<Rightarrow> Slime" where
  "IdleState_enter s = s\<lparr>vy := 0, y := groundY s, currentCompression := 0\<rparr>"

definition ChargingState_enter :: "Slime \<Rightarrow> Slime" where
  "ChargingState_enter s =
     s\<lparr>currentCompression := 0, reachedPeak := False, chargeEfficiency := 1.0,
       postPeakHoldTime := 0, holdLockout := False, contactHasInput := False\<rparr>"

text \<open>
  Modelled from the spec: \<open>AirborneState\<close> (slime/AirborneState.ts) is not among the
  sources. The spec gives the airborne state ballistic motion and the tracking of fall and
  hold distance while it runs, and no action on entry, so entering it changes no field here.
\<close>

definition AirborneState_enter :: "Slime \<Rightarrow> Slime" where
  "AirborneState_enter s = s"

text \<open>
  \<open>transitionTo\<close>: the exit hook of the current state (empty for all three states reached
  here), the state tag, then the enter hook of the new state.
\<close>

definition transitionTo :: "Slime \<Rightarrow> SlimeState \<Rightarrow> Slime" where
  "transitionTo s newState =
     (let s1 = s\<lparr>state := newState\<rparr>
      in case newState of
           GROUNDED_IDLE \<Rightarrow> IdleState_enter s1
         | AIRBORNE \<Rightarrow> AirborneState_enter s1
         | GROUND_CHARGING \<Rightarrow> ChargingState_enter s1)"

text \<open>\<open>showFeedback\<close> records the rating; the rest of it drives text and animation.\<close>

definition showFeedback :: "Slime \<Rightarrow> rating \<Rightarrow> Slime" where
  "showFeedback s r = s\<lparr>lastLaunchRating := Some r\<rparr>"

subsection \<open>launchActiveControlled, in the order of the source\<close>

definition sweetGraceEff :: "GameConfig \<Rightarrow> Slime \<Rightarrow> real" where
  "sweetGraceEff cfg s =
     (let diff = landingDifficulty s;
          sweet0 = orDefault (sweetHoldGrace0 (ground cfg))
                     (orDefault (sweetHoldGrace (ground cfg)) 0.08);
          sweetMin = orDefault (sweetHoldGraceMin (ground cfg)) 0.02
      in Clamp (sweet0 / diff) sweetMin sweet0)"

text \<open>The rating decision (the \<open>if\<close> chain that assigns \<open>rating\<close>).\<close>

definition releaseRating :: "GameConfig \<Rightarrow> Slime \<Rightarrow> rating" where
  "releaseRating cfg s =
     (let proximity = currentCompression s / max (1 / 1000000) (targetCompression s);
          wasInYellowZone = (isInYellowZone s \<and> \<not> reachedPeak s)
      in if holdLockout s \<or> chargeEfficiency s \<le> orDefault (deadEfficiency (ground cfg)) 0.05
         then FAILED
         else if wasInYellowZone \<or> (proximity > 0.9 \<and> \<not> reachedPeak s) then PERFECT
         else if reachedPeak s \<and> postPeakHoldTime s \<le> sweetGraceEff cfg s then PERFECT
         else NORMAL)"

text \<open>
  The press ratio \<open>distFactor\<close>. \<open>a || b\<close> on numbers is \<open>a\<close> unless \<open>a\<close> is 0, so
  \<open>landingFastFallDistance || 0\<close> is the distance itself.
\<close>

definition distFactor :: "Slime \<Rightarrow> real" where
  "distFactor s =
     (let fallDist = max 1 (if landingFallDistance s \<noteq> 0 then landingFallDistance s
                            else lastApexHeight s);
          fastDist = max 0 (landingFastFallDistance s)
      in Clamp (fastDist / fallDist) 0 1)"

text \<open>
  The PERFECT branch: the target height from the last apex height, the streak after its
  update, and the press ratio.
\<close>

definition perfectTargetHeight :: "real \<Rightarrow> nat \<Rightarrow> real \<Rightarrow> real" where
  "perfectTargetHeight lastApex streak press =
     (let streakBonus = (if streak \<ge> 3 then 2.0 else 1.0 :: real);
          baseGrowthRate = 0.15;
          heightFactor = 0.05 * log 10 (1 + lastApex / 100);
          growthRate = baseGrowthRate + heightFactor;
          streakMultiplier = (if streakBonus > 1.0 then 1.5 else 1.0);
          minMult = 0.85;
          maxMult = 1.0 + (growthRate * streakMultiplier);
          targetMult = minMult + (maxMult - minMult) * press
      in lastApex * targetMult)"

definition targetHeight :: "rating \<Rightarrow> Slime \<Rightarrow> real" where
  "targetHeight r s =
     (if r = PERFECT then perfectTargetHeight (lastApexHeight s) (perfectStreak s) (distFactor s)
      else if r = NORMAL then lastApexHeight s * 0.70
      else lastApexHeight s * 0.40)"

text \<open>From the target height to the launch speed: minimum height, floor, caps.\<close>

definition launchSpeed :: "GameConfig \<Rightarrow> rating \<Rightarrow> real \<Rightarrow> real" where
  "launchSpeed cfg r targetH0 =
     (let targetH = max targetH0 50;
          vTarget = sqrt (2 * gravity cfg * targetH);
          vLaunch1 = max vTarget \<bar>baseLaunchVelocity (ground cfg)\<bar>;
          vSoft = orDefault (softCapVelocity (ground cfg)) 2600;
          softFactor = orDefault (softCapFactor (ground cfg)) 0.25;
          vLaunch2 = (if r \<noteq> PERFECT \<and> vLaunch1 > vSoft
                      then vSoft + (vLaunch1 - vSoft) * softFactor else vLaunch1)
      in min vLaunch2 (hardCapVelocity (ground cfg)))"

text \<open>
  \<open>launchActiveControlled\<close> returns nothing; the model returns the player after the call
  together with the value of the local variable \<open>rating\<close>.
\<close>

definition launchActiveControlled :: "GameConfig \<Rightarrow> Slime \<Rightarrow> rating \<times> Slime" where
  "launchActiveControlled cfg s =
     (let r = releaseRating cfg s;
          s1 = s\<lparr>perfectStreak := (if r = PERFECT then perfectStreak s + 1 else 0)\<rparr>;
          s2 = s1\<lparr>healthManager :=
                    onLanding (healthManager s1) (lastApexHeight s1) r (holdLockout s1)\<rparr>
      in if isDead (healthManager s2) then (r, transitionTo s2 GROUNDED_IDLE)
         else
           let vLaunch = launchSpeed cfg r (targetHeight r s2);
               s3 = showFeedback s2 r;
               s4 = s3\<lparr>groundRecoverTau := orDefault (releaseRecoverTime (ground cfg)) 0.12,
                       vy := - vLaunch\<rparr>;
               s5 = transitionTo s4 AIRBORNE
           in (r, s5\<lparr>currentCompression := 0, y := groundY s5 - 0.5,
                      contactHasInput := False, reachedPeak := False, postPeakHoldTime := 0,
                      holdLockout := False, isInYellowZone := False,
                      prevVyForApex := vy s5\<rparr>))"

text \<open>
  \<open>tryLaunchActiveOrSettle\<close>, the handler of a release. The first component is the rating
  the release computed: \<open>None\<close> on the three paths that return to idle before
  \<open>launchActiveControlled\<close> is called.
\<close>

definition tryLaunchActiveOrSettle :: "GameConfig \<Rightarrow> Slime \<Rightarrow> rating option \<times> Slime" where
  "tryLaunchActiveOrSettle cfg s =
     (if currentCompression s \<le> orDefault (settleEps (ground cfg)) 0.5
      then (None, transitionTo (s\<lparr>perfectStreak := 0\<rparr>) GROUNDED_IDLE)
      else if holdLockout s
      then (None, transitionTo (s\<lparr>perfectStreak := 0\<rparr>) GROUNDED_IDLE)
      else if chargeEfficiency s \<le> orDefault (deadEfficiency (ground cfg)) 0.05
      then (None, transitionTo s GROUNDED_IDLE)
      else (let (r, s') = launchActiveControlled cfg s in (Some r, s')))"

section \<open>The monster director (MonsterManager)\<close>

text \<open>
  \<open>GameConfig.monster.director\<close>. \<open>apexRangeStart\<close> is read without a default.
\<close>

record DirectorConfig =
  enabled :: bool
  apexRangeStart :: real
  apexRangeEndBase :: "real option"
  apexRangeEndMin :: "real option"
  apexRangeEndTau :: "real option"
  baseCount :: "real option"
  maxCount :: "real option"
  refHeightM :: "real option"
  countGrowthFactor :: "real option"
  speedRefHeightM :: "real option"
  speedGrowthFactor :: "real option"
  maxSpeedMultiplier :: "real option"

subsection \<open>spawnApexMonsters: band, count and speed\<close>

definition rangeStartM :: "DirectorConfig \<Rightarrow> real \<Rightarrow> real" where
  "rangeStartM director apexHeightM = apexHeightM * apexRangeStart director"

definition dynamicRangeEnd :: "DirectorConfig \<Rightarrow> real \<Rightarrow> real" where
  "dynamicRangeEnd director apexHeightM =
     (let baseEnd = orDefault (apexRangeEndBase director) 0.98;
          minEnd = orDefault (apexRangeEndMin director) 0.91;
          tau = orDefault (apexRangeEndTau director) 600
      in minEnd + (baseEnd - minEnd) * exp (- apexHeightM / tau))"

definition rangeEndM :: "DirectorConfig \<Rightarrow> real \<Rightarrow> real" where
  "rangeEndM director apexHeightM = apexHeightM * dynamicRangeEnd director apexHeightM"

text \<open>
  \<open>Math.floor\<close> and \<open>Math.round\<close> (to the nearest integer, a tie upwards, which is
  \<^term>\<open>round\<close> of HOL: \<open>round x = \<lfloor>x + 1/2\<rfloor>\<close>) give integers, read back as numbers.
\<close>

definition targetCount :: "DirectorConfig \<Rightarrow> real \<Rightarrow> real \<Rightarrow> real" where
  "targetCount director apexHeightM countMultiplier =
     (let bc = orDefault (baseCount director) 4;
          mc = orDefault (maxCount director) 12;
          rh = orDefault (refHeightM director) 50;
          gf = orDefault (countGrowthFactor director) 2.5;
          t0 = (if apexHeightM \<le> rh then bc
                else let logFactor = log 2 (apexHeightM / rh)
                     in of_int \<lfloor>bc + logFactor * gf\<rfloor>);
          t1 = Clamp t0 bc mc
      in max 1 (of_int (round (t1 * countMultiplier))))"

definition speedMultiplier :: "DirectorConfig \<Rightarrow> real \<Rightarrow> real" where
  "speedMultiplier director apexHeightM =
     (let sr = orDefault (speedRefHeightM director) 400;
          sg = orDefault (speedGrowthFactor director) 1.5;
          ms = orDefault (maxSpeedMultiplier director) 3.0
      in min (1.0 + (apexHeightM / sr) * sg) ms)"

record SpawnWindow =
  windowStartM :: real
  windowEndM :: real
  windowCount :: real
  windowSpeed :: real

text \<open>
  The part of \<open>spawnApexMonsters\<close> up to the speed multiplier: nothing is computed when the
  director is disabled. The placement loop that follows draws lanes at random.
\<close>

definition spawnWindow :: "DirectorConfig \<Rightarrow> real \<Rightarrow> real \<Rightarrow> real \<Rightarrow> SpawnWindow option" where
  "spawnWindow director pixelsPerMeter predictedApexHeightPx countMultiplier =
     (if \<not> enabled director then None
      else
        let apexHeightM = predictedApexHeightPx / pixelsPerMeter
        in Some \<lparr>windowStartM = rangeStartM director apexHeightM,
                  windowEndM = rangeEndM director apexHeightM,
                  windowCount = targetCount director apexHeightM countMultiplier,
                  windowSpeed = speedMultiplier director apexHeightM\<rparr>)"

text \<open>
  The count as the specification words it: the base count up to the reference height,
  above it the floor of the logarithmic growth, clamped to the base and maximum count, then
  scaled by the rating multiplier, rounded, and at least 1.
\<close>

definition spec_targetCount :: "real \<Rightarrow> real \<Rightarrow> real \<Rightarrow> real \<Rightarrow> real \<Rightarrow> real \<Rightarrow> real" where
  "spec_targetCount bc mc rh gf apex mult =
     (let target = (if apex \<le> rh then bc else of_int \<lfloor>bc + log 2 (apex / rh) * gf\<rfloor>);
          clamped = (if target < bc then bc else if target > mc then mc else target)
      in max 1 (of_int (round (clamped * mult))))"

subsection \<open>selectMonsterType\<close>

datatype MonsterType = A01 | A02 | A03 | CloudA

definition a01Weight :: "real \<Rightarrow> real" where
  "a01Weight heightM =
     (if heightM < 200 then 1.0
      else if heightM < 600 then 1.0 - (heightM - 200) / (600 - 200)
      else 0)"

definition a02Weight :: "real \<Rightarrow> real" where
  "a02Weight heightM =
     (if heightM \<ge> 200 \<and> heightM < 600 then (heightM - 200) / (600 - 200)
      else if heightM \<ge> 600 \<and> heightM < 1000
      then exp (- 3 * ((heightM - 600) / (1000 - 600)))
      else 0)"

definition a03Weight :: "real \<Rightarrow> real" where
  "a03Weight heightM =
     (if heightM \<ge> 600 \<and> heightM < 1000 then (heightM - 600) / (1000 - 600)
      else if heightM \<ge> 1000 then 1.0
      else 0)"

definition cloudWeight :: "real \<Rightarrow> real" where
  "cloudWeight heightM =
     (if heightM \<ge> 400 \<and> heightM < 800 then (heightM - 400) / (800 - 400)
      else if heightM \<ge> 800 \<and> heightM < 1100
      then 1.0 - ((heightM - 800) / (1100 - 800)) * 0.9
      else 0)"

text \<open>The candidate list, in the order the source pushes the entries.\<close>

definition candidates :: "real \<Rightarrow> real \<Rightarrow> real \<Rightarrow> real \<Rightarrow> (MonsterType \<times> real) list" where
  "candidates w1 w2 w3 wc =
     (if w1 > 0.01 then [(A01, w1)] else []) @
     (if w2 > 0.01 then [(A02, w2)] else []) @
     (if w3 > 0.01 then [(A03, w3)] else []) @
     (if wc > 0.01 then [(CloudA, wc)] else [])"

text \<open>
  The draw loop: subtract each weight from the running number and return the first type
  that brings it to 0 or below; \<open>None\<close> when the loop runs off the end of the list.
\<close>

fun drawLoop :: "(MonsterType \<times> real) list \<Rightarrow> real \<Rightarrow> MonsterType option" where
  "drawLoop [] random = None"
| "drawLoop ((t, w) # cs) random =
     (let random' = random - w in if random' \<le> 0 then Some t else drawLoop cs random')"

text \<open>
  The selection from the four weights. \<open>rnd\<close> is the value of \<open>Math.random()\<close>. The result
  is \<open>None\<close> where the source would read \<open>candidates[0].type\<close> of an empty array, which
  throws.
\<close>

definition selectFromWeights :: "real \<Rightarrow> real \<Rightarrow> real \<Rightarrow> real \<Rightarrow> real \<Rightarrow> MonsterType option" where
  "selectFromWeights w1 w2 w3 wc rnd =
     (let cands = candidates w1 w2 w3 wc
      in if length cands = 0 then Some A03
         else
           let totalWeight = foldl (\<lambda>sum c. sum + snd c) 0 cands;
               random = rnd * totalWeight
           in case drawLoop cands random of
                Some t \<Rightarrow> Some t
              | None \<Rightarrow> (case cands of [] \<Rightarrow> None | c # _ \<Rightarrow> Some (fst c)))"

definition selectMonsterType :: "real \<Rightarrow> real \<Rightarrow> MonsterType option" where
  "selectMonsterType heightM rnd =
     selectFromWeights (a01Weight heightM) (a02Weight heightM) (a03Weight heightM)
       (cloudWeight heightM) rnd"

definition totalTypeWeight :: "real \<Rightarrow> real" where
  "totalTypeWeight heightM =
     a01Weight heightM + a02Weight heightM + a03Weight heightM + cloudWeight heightM"

section \<open>The deformable ground (Ground)\<close>

definition BLOCK_SIZE :: real where
  "BLOCK_SIZE = 64"

definition TENSION :: real where
  "TENSION = 180"

definition STIFFNESS :: real where
  "STIFFNESS = 90"

definition DAMPING :: real where
  "DAMPING = 18"

definition MAX_OFFSET :: real where
  "MAX_OFFSET = 60"

text \<open>The spring state of \<open>Ground\<close>: one entry per column in each array.\<close>

record Ground =
  BLOCKS_PER_ROW :: nat
  yOffset :: "real list"
  yVel :: "real list"
  force :: "real list"

text \<open>The constructor: \<open>ceil(width / BLOCK_SIZE) + 4\<close> columns, all at rest.\<close>

definition newGround :: "real \<Rightarrow> Ground" where
  "newGround width =
     (let n = nat (\<lceil>width / BLOCK_SIZE\<rceil> + 4)
      in \<lparr>BLOCKS_PER_ROW = n, yOffset = replicate n 0, yVel = replicate n 0,
          force = replicate n 0\<rparr>)"

definition wellFormed :: "Ground \<Rightarrow> bool" where
  "wellFormed g \<longleftrightarrow>
     length (yOffset g) = BLOCKS_PER_ROW g \<and> length (yVel g) = BLOCKS_PER_ROW g \<and>
     length (force g) = BLOCKS_PER_ROW g"

text \<open>
  Step 3 of \<open>render\<close>, the force on each column: zero, plus a Gaussian bump around the
  column under the player while the ground is pressed. \<open>playerX\<close> is optional.
\<close>

definition centerCol :: "Ground \<Rightarrow> real option \<Rightarrow> int" where
  "centerCol g playerX =
     (case playerX of
        Some x \<Rightarrow> \<lfloor>x / BLOCK_SIZE\<rfloor>
      | None \<Rightarrow> \<lfloor>real (BLOCKS_PER_ROW g) / 2\<rfloor>)"

definition columnForce :: "Ground \<Rightarrow> real \<Rightarrow> int \<Rightarrow> nat \<Rightarrow> real" where
  "columnForce g depressionDepth center i =
     (if depressionDepth > 0 \<and> max 0 (center - 6) \<le> int i \<and>
         int i \<le> min (int (BLOCKS_PER_ROW g) - 1) (center + 6)
      then
        let sigma = 1.6 :: real;
            P = depressionDepth * 80;
            d = real_of_int (int i - center);
            gauss = exp (- (d * d) / (2 * sigma * sigma))
        in 0 + P * gauss
      else 0)"

definition computeForce :: "Ground \<Rightarrow> real \<Rightarrow> real option \<Rightarrow> Ground" where
  "computeForce g depressionDepth playerX =
     g\<lparr>force := map (columnForce g depressionDepth (centerCol g playerX))
                    [0..<BLOCKS_PER_ROW g]\<rparr>"

text \<open>
  The body of the inner loop for column \<open>i\<close>. The arrays are updated in place, so the
  left neighbour has already been moved in this substep and the right one has not.
\<close>

definition columnStep :: "real \<Rightarrow> Ground \<Rightarrow> nat \<Rightarrow> Ground" where
  "columnStep h g i =
     (let yc = yOffset g ! i;
          v = yVel g ! i;
          yL = yOffset g ! nat (max 0 (int i - 1));
          yR = yOffset g ! nat (min (int (BLOCKS_PER_ROW g) - 1) (int i + 1));
          laplacian = yL - 2 * yc + yR;
          a = TENSION * laplacian - STIFFNESS * yc - DAMPING * v + force g ! i;
          v' = v + a * h;
          y1 = yc + v' * h;
          y2 = max (- MAX_OFFSET * 0.3) (min MAX_OFFSET y1)
      in g\<lparr>yVel := (yVel g)[i := v'], yOffset := (yOffset g)[i := y2]\<rparr>)"

text \<open>One substep: the inner loop over all columns, from column 0 upwards.\<close>

definition subStep :: "real \<Rightarrow> Ground \<Rightarrow> Ground" where
  "subStep h g = foldl (columnStep h) g [0..<BLOCKS_PER_ROW g]"

text \<open>
  The physics of \<open>render\<close>: the forces, then \<open>subSteps = 2\<close> substeps of length
  \<open>dt / subSteps\<close>. Shake, ripple and the sprite positions do not touch the spring state.
\<close>

definition render :: "real \<Rightarrow> real \<Rightarrow> real option \<Rightarrow> Ground \<Rightarrow> Ground" where
  "render dt depressionDepth playerX g =
     (let g1 = computeForce g depressionDepth playerX;
          subSteps = 2;
          h = dt / subSteps
      in subStep h (subStep h g1))"

text \<open>\<open>n\<close> ticks with the ground not pressed.\<close>

definition relax :: "real \<Rightarrow> real option \<Rightarrow> nat \<Rightarrow> Ground \<Rightarrow> Ground" where
  "relax dt playerX n g = ((render dt 0 playerX) ^^ n) g"

section \<open>The specification's formulas\<close>

text \<open>
  The launch physics as the specification words it: linear interpolation, the growth rate,
  the streak multiplier, the PERFECT target height, and the launch velocity from a target
  height (minimum launch height 50, floor at the base launch velocity, hard cap).
\<close>

definition spec_lerp :: "real \<Rightarrow> real \<Rightarrow> real \<Rightarrow> real" where
  "spec_lerp a b t = a + (b - a) * t"

definition spec_growthRate :: "real \<Rightarrow> real" where
  "spec_growthRate lastApex = 0.15 + 0.05 * log 10 (1 + lastApex / 100)"

definition spec_streakMultiplier :: "nat \<Rightarrow> real" where
  "spec_streakMultiplier streak = (if streak \<ge> 3 then 1.5 else 1.0)"

definition spec_perfectTarget :: "real \<Rightarrow> nat \<Rightarrow> real \<Rightarrow> real" where
  "spec_perfectTarget lastApex streak pressRatio =
     lastApex * spec_lerp 0.85 (1.0 + spec_growthRate lastApex * spec_streakMultiplier streak)
       pressRatio"

definition spec_launchVelocity :: "GameConfig \<Rightarrow> real \<Rightarrow> real" where
  "spec_launchVelocity cfg targetH =
     min (max (sqrt (2 * gravity cfg * max targetH 50)) \<bar>baseLaunchVelocity (ground cfg)\<bar>)
       (hardCapVelocity (ground cfg))"

section \<open>Concrete configurations and states\<close>

text \<open>
  A configuration in which every optional entry is absent, so that the defaults written in
  the code apply; gravity and the two required velocities are example values.
\<close>

definition exampleConfig :: GameConfig where
  "exampleConfig = \<lparr>gravity = 2400,
     ground = \<lparr>settleEps = None, deadEfficiency = None, sweetHoldGrace0 = None,
       sweetHoldGrace = None, sweetHoldGraceMin = None, softCapVelocity = None,
       softCapFactor = None, releaseRecoverTime = None, baseLaunchVelocity = - 900,
       hardCapVelocity = 6000\<rparr>\<rparr>"

definition freshHealth :: SlimeHealthManager where
  "freshHealth = \<lparr>invincible = False, currentHealth = 100, maxHealth = 100, isDead = False,
     damageTextTimer = 0, healthBarVisibleTimer = 0, PIXELS_PER_METER = 50\<rparr>"

text \<open>
  A player in the yellow zone before the peak, after a fall of 900 px with the input held
  all the way, on a streak of two.
\<close>

definition yellowSlime :: Slime where
  "yellowSlime = \<lparr>state = GROUND_CHARGING, y = 0, vy = 0, groundY = 0,
     targetCompression = 40, currentCompression = 38, reachedPeak = False,
     chargeEfficiency = 1, contactHasInput = True, postPeakHoldTime = 0,
     holdLockout = False, prevVyForApex = 0, lastApexHeight = 900, landingApexHeight = 900,
     landingDifficulty = 1, landingFallDistance = 900, landingFastFallDistance = 900,
     groundRecoverTau = 0.12, isInYellowZone = True, yellowZoneStartTime = 0.01,
     lastLaunchRating = Some PERFECT, perfectStreak = 2, healthManager = freshHealth\<rparr>"

text \<open>The same player after holding past the fail time: the lockout is set.\<close>

definition lockedSlime :: Slime where
  "lockedSlime = yellowSlime\<lparr>currentCompression := 20, reachedPeak := True,
     isInYellowZone := False, postPeakHoldTime := 0.3, chargeEfficiency := 0.4,
     holdLockout := True\<rparr>"

text \<open>The same player with the charge efficiency down to the dead efficiency, no lockout.\<close>

definition tiredSlime :: Slime where
  "tiredSlime = yellowSlime\<lparr>currentCompression := 20, reachedPeak := True,
     isInYellowZone := False, postPeakHoldTime := 0.15, chargeEfficiency := 0.05\<rparr>"

text \<open>A player in the yellow zone whose last apex height is 0.\<close>

definition flatSlime :: "real \<Rightarrow> Slime" where
  "flatSlime fast = yellowSlime\<lparr>lastApexHeight := 0, landingApexHeight := 0,
     landingFallDistance := 1, landingFastFallDistance := fast\<rparr>"

text \<open>
  Modelled from the spec: \<open>GameConfig.monster.director\<close> (config.ts) is not among the
  sources. The band starts at 0.85 of the apex height; every entry that the code reads with
  a default is absent, so that the defaults of the code apply (4, 12, 50, 2.5 for the
  count; 0.98, 0.91, 600 for the band).
\<close>

definition defaultDirector :: DirectorConfig where
  "defaultDirector = \<lparr>enabled = True, apexRangeStart = 0.85, apexRangeEndBase = None,
     apexRangeEndMin = None, apexRangeEndTau = None, baseCount = None, maxCount = None,
     refHeightM = None, countGrowthFactor = None, speedRefHeightM = None,
     speedGrowthFactor = None, maxSpeedMultiplier = None\<rparr>"

text \<open>The value first assigned to \<open>targetCount\<close>, before the clamp and the multiplier.\<close>

definition rawCount :: "real \<Rightarrow> real \<Rightarrow> real \<Rightarrow> real \<Rightarrow> real" where
  "rawCount bc rh gf apex =
     (if apex \<le> rh then bc else of_int \<lfloor>bc + log 2 (apex / rh) * gf\<rfloor>)"

text \<open>The range of a column offset, and the invariant of the spring state.\<close>

definition offsetInRange :: "real \<Rightarrow> bool" where
  "offsetInRange v \<longleftrightarrow> - 0.3 * MAX_OFFSET \<le> v \<and> v \<le> MAX_OFFSET"

definition groundInvariant :: "Ground \<Rightarrow> bool" where
  "groundInvariant g \<longleftrightarrow>
     wellFormed g \<and> (\<forall>i < BLOCKS_PER_ROW g. offsetInRange (yOffset g ! i))"

text \<open>Five columns, the middle one pushed beyond the maximum offset.\<close>

definition bentGround :: Ground where
  "bentGround = \<lparr>BLOCKS_PER_ROW = 5, yOffset = [0, 0, 70, 0, 0], yVel = [0, 0, 0, 0, 0],
     force = [0, 0, 0, 0, 0]\<rparr>"

section \<open>The ground as a chain of damped springs\<close>

text \<open>
  The column update of \<^verbatim>\<open>Ground.render\<close> is a semi-implicit Euler step of a chain of
  masses, followed by the clamp: every column is tied to its rest position by a spring of
  constant STIFFNESS, to its neighbours by springs of constant TENSION, and is braked by
  DAMPING. The definitions below describe the unpressed chain on functions from column
  indices to offsets and velocities, and its energy; they are compared with
  \<^const>\<open>columnStep\<close> and \<^const>\<open>subStep\<close> in the last section.
\<close>

definition kineticEnergy :: "nat \<Rightarrow> (nat \<Rightarrow> real) \<Rightarrow> real" where
  "kineticEnergy n w = (\<Sum>i<n. (w i)\<^sup>2) / 2"

definition potentialEnergy :: "nat \<Rightarrow> (nat \<Rightarrow> real) \<Rightarrow> real" where
  "potentialEnergy n u =
     STIFFNESS / 2 * (\<Sum>i<n. (u i)\<^sup>2) + TENSION / 2 * (\<Sum>i<n - 1. (u (Suc i) - u i)\<^sup>2)"

definition laplacian :: "nat \<Rightarrow> (nat \<Rightarrow> real) \<Rightarrow> nat \<Rightarrow> real" where
  "laplacian n u i = u (nat (max 0 (int i - 1))) - 2 * u i + u (nat (min (int n - 1) (int i + 1)))"

definition potentialGradient :: "nat \<Rightarrow> (nat \<Rightarrow> real) \<Rightarrow> nat \<Rightarrow> real" where
  "potentialGradient n u i = STIFFNESS * u i - TENSION * laplacian n u i"

definition localStiffness :: "nat \<Rightarrow> nat \<Rightarrow> real" where
  "localStiffness n i = STIFFNESS + TENSION * ((if 0 < i then 1 else 0) + (if Suc i < n then 1 else 0))"

text \<open>The clamp of \<^verbatim>\<open>render\<close>: \<^verbatim>\<open>Math.max(-MAX_OFFSET * 0.3, Math.min(MAX_OFFSET, y))\<close>.\<close>

definition clampOffset :: "real \<Rightarrow> real" where
  "clampOffset x = max (- MAX_OFFSET * 0.3) (min MAX_OFFSET x)"

definition chainStep :: "real \<Rightarrow> nat \<Rightarrow> nat \<Rightarrow> (nat \<Rightarrow> real) \<times> (nat \<Rightarrow> real) \<Rightarrow> (nat \<Rightarrow> real) \<times> (nat \<Rightarrow> real)" where
  "chainStep h n i s =
     (let u = fst s; w = snd s;
          a = TENSION * laplacian n u i - STIFFNESS * u i - DAMPING * w i;
          w' = w i + a * h;
          u' = clampOffset (u i + w' * h)
      in (u(i := u'), w(i := w')))"

definition energyOf :: "nat \<Rightarrow> (nat \<Rightarrow> real) \<times> (nat \<Rightarrow> real) \<Rightarrow> real" where
  "energyOf n s = kineticEnergy n (snd s) + potentialEnergy n (fst s)"

text \<open>The energy a column step dissipates, from the velocity change d and the new velocity V.\<close>

definition dissipation :: "real \<Rightarrow> real \<Rightarrow> real \<Rightarrow> real \<Rightarrow> real" where
  "dissipation h k d V = d\<^sup>2 / 2 - DAMPING * h * d * V + (DAMPING * h - k * h\<^sup>2 / 2) * V\<^sup>2"

text \<open>All offsets in the range of the clamp; the sum of the offsets of the neighbours.\<close>

definition inRange :: "nat \<Rightarrow> (nat \<Rightarrow> real) \<Rightarrow> bool" where
  "inRange n u \<longleftrightarrow> (\<forall>j<n. offsetInRange (u j))"

definition nbrSum :: "nat \<Rightarrow> (nat \<Rightarrow> real) \<Rightarrow> nat \<Rightarrow> real" where
  "nbrSum n u i = (if 0 < i then u (i - 1) else 0) + (if Suc i < n then u (Suc i) else 0)"

text \<open>The velocity a column gets in its step.\<close>

definition newVel :: "real \<Rightarrow> nat \<Rightarrow> nat \<Rightarrow> (nat \<Rightarrow> real) \<times> (nat \<Rightarrow> real) \<Rightarrow> real" where
  "newVel h n i s = snd s i + (- potentialGradient n (fst s) i - DAMPING * snd s i) * h"

fun chainSweep :: "real \<Rightarrow> nat \<Rightarrow> nat \<Rightarrow> (nat \<Rightarrow> real) \<times> (nat \<Rightarrow> real) \<Rightarrow> (nat \<Rightarrow> real) \<times> (nat \<Rightarrow> real)" where
  "chainSweep h n 0 s = s"
| "chainSweep h n (Suc k) s = chainStep h n k (chainSweep h n k s)"

text \<open>The columns of a ground as a state of the chain, and the energy of a ground.\<close>

definition columnsOf :: "Ground \<Rightarrow> (nat \<Rightarrow> real) \<times> (nat \<Rightarrow> real)" where
  "columnsOf g = ((\<lambda>i. yOffset g ! i), (\<lambda>i. yVel g ! i))"

definition springEnergy :: "Ground \<Rightarrow> real" where
  "springEnergy g = energyOf (BLOCKS_PER_ROW g) (columnsOf g)"

definition unforced :: "Ground \<Rightarrow> bool" where
  "unforced g \<longleftrightarrow> (\<forall>i < BLOCKS_PER_ROW g. force g ! i = 0)"

definition agree :: "nat \<Rightarrow> (nat \<Rightarrow> real) \<times> (nat \<Rightarrow> real) \<Rightarrow> (nat \<Rightarrow> real) \<times> (nat \<Rightarrow> real) \<Rightarrow> bool" where
  "agree n s t \<longleftrightarrow> (\<forall>j<n. fst s j = fst t j \<and> snd s j = snd t j)"

text \<open>A column at its greatest depth and not rising; a column at its greatest height and rising fast.\<close>

definition heldDown :: "(nat \<Rightarrow> real) \<times> (nat \<Rightarrow> real) \<Rightarrow> nat \<Rightarrow> bool" where
  "heldDown s i \<longleftrightarrow> fst s i = 60 \<and> 0 \<le> snd s i"

definition thrownUp :: "(nat \<Rightarrow> real) \<times> (nat \<Rightarrow> real) \<Rightarrow> nat \<Rightarrow> bool" where
  "thrownUp s i \<longleftrightarrow> fst s i = - 18 \<and> snd s i \<le> - 400"

text \<open>A strip of five columns at rest, the middle one pressed down to the maximum offset.\<close>

definition pressedGround :: Ground where
  "pressedGround = \<lparr>BLOCKS_PER_ROW = 5, yOffset = [0, 0, 60, 0, 0], yVel = [0, 0, 0, 0, 0],
     force = [0, 0, 0, 0, 0]\<rparr>"

text \<open>A ground at rest, and a force array that pushes no column upwards.\<close>

definition atRest :: "Ground \<Rightarrow> bool" where
  "atRest g \<longleftrightarrow> (\<forall>j < BLOCKS_PER_ROW g. yOffset g ! j = 0 \<and> yVel g ! j = 0)"

definition pushedDown :: "Ground \<Rightarrow> bool" where
  "pushedDown g \<longleftrightarrow> (\<forall>j < BLOCKS_PER_ROW g. 0 \<le> force g ! j)"


section \<open>The timing engine: rating, streak, launch\<close>

lemmas release_defs = tryLaunchActiveOrSettle_def launchActiveControlled_def releaseRating_def
  transitionTo_def IdleState_enter_def AirborneState_enter_def showFeedback_def orDefault_def
  onLanding_def Let_def

lemma releaseRating_PERFECT_no_lockout:
  "releaseRating cfg s = PERFECT \<Longrightarrow> \<not> holdLockout s"
  by (auto simp: releaseRating_def Let_def split: if_splits)

lemma launch_rating: "fst (launchActiveControlled cfg s) = releaseRating cfg s"
  by (simp add: launchActiveControlled_def Let_def)

lemma onLanding_PERFECT_no_lockout: "onLanding hm heightPixels PERFECT False = hm"
  by (simp add: onLanding_def Let_def)

text \<open>
  C1, as the claim states it, fails: a release with the lockout set returns to idle
  before any rating is computed, so the cycle gets no FAILED rating (the rating on
  display is still the PERFECT of the launch before).
\<close>

theorem C1_lockout_release_has_no_rating:
  "holdLockout lockedSlime \<and>
   fst (tryLaunchActiveOrSettle exampleConfig lockedSlime) = None \<and>
   state (snd (tryLaunchActiveOrSettle exampleConfig lockedSlime)) = GROUNDED_IDLE \<and>
   lastLaunchRating (snd (tryLaunchActiveOrSettle exampleConfig lockedSlime)) = Some PERFECT"
  by (simp add: lockedSlime_def yellowSlime_def exampleConfig_def release_defs)

text \<open>
  C1, amended: the rating decision of \<open>launchActiveControlled\<close> gives FAILED if and only if
  the lockout is set or the charge efficiency is at most the dead efficiency. A release
  computes no rating exactly when the compression is at most the settle epsilon, the
  lockout is set, or the efficiency is at most the dead efficiency; the player then
  returns to idle with the displayed rating and the health untouched. So no release is
  rated FAILED.
\<close>

theorem C1_rating_failed_iff:
  "(fst (launchActiveControlled cfg s) = FAILED \<longleftrightarrow>
      holdLockout s \<or> chargeEfficiency s \<le> orDefault (deadEfficiency (ground cfg)) 0.05) \<and>
   (fst (tryLaunchActiveOrSettle cfg s) = None \<longleftrightarrow>
      currentCompression s \<le> orDefault (settleEps (ground cfg)) 0.5 \<or> holdLockout s \<or>
      chargeEfficiency s \<le> orDefault (deadEfficiency (ground cfg)) 0.05) \<and>
   (fst (tryLaunchActiveOrSettle cfg s) = None \<longrightarrow>
      state (snd (tryLaunchActiveOrSettle cfg s)) = GROUNDED_IDLE \<and>
      lastLaunchRating (snd (tryLaunchActiveOrSettle cfg s)) = lastLaunchRating s \<and>
      healthManager (snd (tryLaunchActiveOrSettle cfg s)) = healthManager s) \<and>
   fst (tryLaunchActiveOrSettle cfg s) \<noteq> Some FAILED"
proof (intro conjI)
  show "fst (launchActiveControlled cfg s) = FAILED \<longleftrightarrow>
      holdLockout s \<or> chargeEfficiency s \<le> orDefault (deadEfficiency (ground cfg)) 0.05"
    by (auto simp: launch_rating releaseRating_def Let_def split: if_splits)
  show "fst (tryLaunchActiveOrSettle cfg s) = None \<longleftrightarrow>
      currentCompression s \<le> orDefault (settleEps (ground cfg)) 0.5 \<or> holdLockout s \<or>
      chargeEfficiency s \<le> orDefault (deadEfficiency (ground cfg)) 0.05"
    by (auto simp: tryLaunchActiveOrSettle_def split: prod.splits)
  show "fst (tryLaunchActiveOrSettle cfg s) = None \<longrightarrow>
      state (snd (tryLaunchActiveOrSettle cfg s)) = GROUNDED_IDLE \<and>
      lastLaunchRating (snd (tryLaunchActiveOrSettle cfg s)) = lastLaunchRating s \<and>
      healthManager (snd (tryLaunchActiveOrSettle cfg s)) = healthManager s"
    by (auto simp: tryLaunchActiveOrSettle_def transitionTo_def IdleState_enter_def
        split: prod.splits if_splits)
  show "fst (tryLaunchActiveOrSettle cfg s) \<noteq> Some FAILED"
    by (auto simp: tryLaunchActiveOrSettle_def launchActiveControlled_def releaseRating_def
        Let_def split: prod.splits if_splits)
qed

theorem C1_rating_failed_iff_witness:
  "fst (launchActiveControlled exampleConfig lockedSlime) = FAILED \<and>
   fst (tryLaunchActiveOrSettle exampleConfig lockedSlime) = None \<and>
   state (snd (tryLaunchActiveOrSettle exampleConfig lockedSlime)) = GROUNDED_IDLE \<and>
   healthManager (snd (tryLaunchActiveOrSettle exampleConfig lockedSlime)) = freshHealth"
proof -
  have l: "holdLockout lockedSlime"
    by (simp add: lockedSlime_def)
  have hm: "healthManager lockedSlime = freshHealth"
    by (simp add: lockedSlime_def yellowSlime_def)
  note c = C1_rating_failed_iff [of exampleConfig lockedSlime]
  have n: "fst (tryLaunchActiveOrSettle exampleConfig lockedSlime) = None"
    using c l by blast
  show ?thesis using c l n hm by simp
qed

text \<open>
  C2 fails on the release path taken when the charge efficiency is at most the dead
  efficiency: the player returns to idle and keeps the streak (2 here), where the two
  branches above it in \<open>tryLaunchActiveOrSettle\<close> reset it to 0.
\<close>

theorem C2_dead_efficiency_release_keeps_streak:
  "perfectStreak tiredSlime = 2 \<and> \<not> holdLockout tiredSlime \<and>
   chargeEfficiency tiredSlime \<le> orDefault (deadEfficiency (ground exampleConfig)) 0.05 \<and>
   fst (tryLaunchActiveOrSettle exampleConfig tiredSlime) = None \<and>
   state (snd (tryLaunchActiveOrSettle exampleConfig tiredSlime)) = GROUNDED_IDLE \<and>
   perfectStreak (snd (tryLaunchActiveOrSettle exampleConfig tiredSlime)) = 2"
  by (simp add: tiredSlime_def yellowSlime_def exampleConfig_def release_defs)

text \<open>The other ends of a release do what C2 says.\<close>

lemma release_streak_other_paths:
  "(currentCompression s \<le> orDefault (settleEps (ground cfg)) 0.5 \<or> holdLockout s \<longrightarrow>
      perfectStreak (snd (tryLaunchActiveOrSettle cfg s)) = 0) \<and>
   (fst (tryLaunchActiveOrSettle cfg s) = Some NORMAL \<longrightarrow>
      perfectStreak (snd (tryLaunchActiveOrSettle cfg s)) = 0) \<and>
   (fst (tryLaunchActiveOrSettle cfg s) = Some PERFECT \<longrightarrow>
      perfectStreak (snd (tryLaunchActiveOrSettle cfg s)) = perfectStreak s + 1)"
  by (auto simp: tryLaunchActiveOrSettle_def launchActiveControlled_def transitionTo_def
      IdleState_enter_def AirborneState_enter_def showFeedback_def Let_def
      split: prod.splits if_splits)

text \<open>The PERFECT branch computes the specification's target height.\<close>

lemma perfectTargetHeight_spec:
  "perfectTargetHeight lastApex streak press = spec_perfectTarget lastApex streak press"
  by (simp add: perfectTargetHeight_def spec_perfectTarget_def spec_lerp_def
      spec_growthRate_def spec_streakMultiplier_def Let_def)

lemma spec_growthRate_pos: "0 < lastApex \<Longrightarrow> 0.15 < spec_growthRate lastApex"
proof -
  assume "0 < lastApex"
  then have "1 < 1 + lastApex / 100" by simp
  then have "0 < log 10 (1 + lastApex / 100)" by simp
  then show ?thesis by (simp add: spec_growthRate_def)
qed

lemma spec_perfectTarget_strict:
  assumes "0 < lastApex" "p < q"
  shows "spec_perfectTarget lastApex streak p < spec_perfectTarget lastApex streak q"
proof -
  have g: "0.15 < spec_growthRate lastApex" using assms(1) by (rule spec_growthRate_pos)
  have m: "1 \<le> spec_streakMultiplier streak" by (simp add: spec_streakMultiplier_def)
  have "0.15 * 1 < spec_growthRate lastApex * spec_streakMultiplier streak"
    using g m by (intro mult_less_le_imp_less) auto
  then have d: "0 < (1.0 + spec_growthRate lastApex * spec_streakMultiplier streak) - 0.85"
    by simp
  have "spec_lerp 0.85 (1.0 + spec_growthRate lastApex * spec_streakMultiplier streak) p
      < spec_lerp 0.85 (1.0 + spec_growthRate lastApex * spec_streakMultiplier streak) q"
    unfolding spec_lerp_def using d assms(2) by simp
  then show ?thesis unfolding spec_perfectTarget_def using assms(1) by simp
qed

lemma distFactor_range: "0 \<le> distFactor s \<and> distFactor s \<le> 1"
  by (simp add: distFactor_def Clamp_def Let_def)

lemma distFactor_ratio:
  "1 \<le> landingFallDistance s \<Longrightarrow> 0 \<le> landingFastFallDistance s \<Longrightarrow>
   distFactor s = Clamp (landingFastFallDistance s / landingFallDistance s) 0 1"
  by (simp add: distFactor_def Let_def max_def)

lemma perfect_launch:
  assumes "fst (launchActiveControlled cfg s) = PERFECT" "\<not> isDead (healthManager s)"
  shows "state (snd (launchActiveControlled cfg s)) = AIRBORNE \<and>
         vy (snd (launchActiveControlled cfg s)) =
           - spec_launchVelocity cfg
               (spec_perfectTarget (lastApexHeight s) (perfectStreak s + 1) (distFactor s))"
proof -
  have r: "releaseRating cfg s = PERFECT"
    using assms(1) by (simp add: launch_rating)
  have h: "onLanding (healthManager s) (lastApexHeight s) PERFECT (holdLockout s)
             = healthManager s"
    using releaseRating_PERFECT_no_lockout [OF r] by (simp add: onLanding_def)
  have d: "distFactor (s\<lparr>perfectStreak := Suc (perfectStreak s)\<rparr>) = distFactor s"
    by (simp add: distFactor_def)
  show ?thesis using assms(2)
    by (simp add: launchActiveControlled_def Let_def r h d transitionTo_def
        AirborneState_enter_def showFeedback_def targetHeight_def launchSpeed_def
        spec_launchVelocity_def perfectTargetHeight_spec)
qed

lemma yellowSlime_PERFECT: "fst (launchActiveControlled exampleConfig yellowSlime) = PERFECT"
  by (simp add: launch_rating releaseRating_def yellowSlime_def exampleConfig_def
      orDefault_def Let_def)

lemma flatSlime_PERFECT: "fst (launchActiveControlled exampleConfig (flatSlime fast)) = PERFECT"
  by (simp add: launch_rating releaseRating_def flatSlime_def yellowSlime_def
      exampleConfig_def orDefault_def Let_def)

text \<open>
  C3, as the claim states it, fails where the last apex height is 0: two PERFECT releases
  with press ratio 0 and 1 get the same target height, so the target height is not
  strictly increasing in the press ratio.
\<close>

theorem C3_zero_apex_not_strictly_increasing:
  "fst (launchActiveControlled exampleConfig (flatSlime 0)) = PERFECT \<and>
   fst (launchActiveControlled exampleConfig (flatSlime 1)) = PERFECT \<and>
   distFactor (flatSlime 0) = 0 \<and> distFactor (flatSlime 1) = 1 \<and>
   \<not> targetHeight PERFECT (flatSlime 0) < targetHeight PERFECT (flatSlime 1)"
  by (simp add: flatSlime_PERFECT)
     (simp add: flatSlime_def yellowSlime_def distFactor_def Clamp_def targetHeight_def
       perfectTargetHeight_def Let_def)

text \<open>
  C3, amended. The PERFECT branch computes
  \<open>lastApexHeight \<cdot> lerp(0.85, 1.0 + growthRate \<cdot> streakMultiplier, pressRatio)\<close> with
  the growth rate and streak multiplier of the specification (the streak being the one
  already incremented). This target height is strictly increasing in the press ratio when
  the last apex height is positive, and is \<open>0.85 \<cdot> lastApexHeight\<close> at press ratio 0. The
  press ratio of the code lies in [0, 1] and is \<open>fastFallDistance / fallDistance\<close> clamped
  to [0, 1] when the fall distance is at least 1 and the fast-fall distance is not
  negative. A PERFECT release of a player who is not dead launches with velocity
  \<open>sqrt(2 \<cdot> g \<cdot> max(targetHeight, 50))\<close>, floored at the base launch velocity and clamped
  to the hard cap, with no soft cap.
\<close>

theorem C3_perfect_target_height_and_launch:
  "perfectTargetHeight lastApex streak press = spec_perfectTarget lastApex streak press \<and>
   (0 < lastApex \<and> p < q \<longrightarrow>
      perfectTargetHeight lastApex streak p < perfectTargetHeight lastApex streak q) \<and>
   perfectTargetHeight lastApex streak 0 = 0.85 * lastApex \<and>
   0 \<le> distFactor s \<and> distFactor s \<le> 1 \<and>
   (1 \<le> landingFallDistance s \<and> 0 \<le> landingFastFallDistance s \<longrightarrow>
      distFactor s = Clamp (landingFastFallDistance s / landingFallDistance s) 0 1) \<and>
   (fst (launchActiveControlled cfg s) = PERFECT \<and> \<not> isDead (healthManager s) \<longrightarrow>
      state (snd (launchActiveControlled cfg s)) = AIRBORNE \<and>
      vy (snd (launchActiveControlled cfg s)) =
        - spec_launchVelocity cfg
            (spec_perfectTarget (lastApexHeight s) (perfectStreak s + 1) (distFactor s)))"
proof (intro conjI impI)
  show "perfectTargetHeight lastApex streak press = spec_perfectTarget lastApex streak press"
    by (rule perfectTargetHeight_spec)
  show "perfectTargetHeight lastApex streak p < perfectTargetHeight lastApex streak q"
    if "0 < lastApex \<and> p < q"
    using that by (simp add: perfectTargetHeight_spec spec_perfectTarget_strict)
  show "perfectTargetHeight lastApex streak 0 = 0.85 * lastApex"
    by (simp add: perfectTargetHeight_def Let_def)
  show "0 \<le> distFactor s" "distFactor s \<le> 1"
    using distFactor_range by blast+
  show "distFactor s = Clamp (landingFastFallDistance s / landingFallDistance s) 0 1"
    if "1 \<le> landingFallDistance s \<and> 0 \<le> landingFastFallDistance s"
    using that by (simp add: distFactor_ratio)
  show "state (snd (launchActiveControlled cfg s)) = AIRBORNE"
    if "fst (launchActiveControlled cfg s) = PERFECT \<and> \<not> isDead (healthManager s)"
    using that perfect_launch by blast
  show "vy (snd (launchActiveControlled cfg s)) =
        - spec_launchVelocity cfg
            (spec_perfectTarget (lastApexHeight s) (perfectStreak s + 1) (distFactor s))"
    if "fst (launchActiveControlled cfg s) = PERFECT \<and> \<not> isDead (healthManager s)"
    using that perfect_launch by blast
qed

text \<open>
  The specification's scenario of a third consecutive PERFECT with the input held all the
  way, from 900 px: the multiplier is 1.3, the target height 1170 px.
\<close>

theorem C3_perfect_target_height_and_launch_witness:
  "perfectTargetHeight 900 3 0 < perfectTargetHeight 900 3 1 \<and>
   distFactor yellowSlime = 1 \<and>
   fst (launchActiveControlled exampleConfig yellowSlime) = PERFECT \<and>
   \<not> isDead (healthManager yellowSlime) \<and>
   state (snd (launchActiveControlled exampleConfig yellowSlime)) = AIRBORNE \<and>
   vy (snd (launchActiveControlled exampleConfig yellowSlime)) =
     - spec_launchVelocity exampleConfig 1170"
proof -
  note c = C3_perfect_target_height_and_launch
    [of 900 3 1 0 1 yellowSlime exampleConfig]
  have a: "\<not> isDead (healthManager yellowSlime)"
    by (simp add: yellowSlime_def freshHealth_def)
  have f: "1 \<le> landingFallDistance yellowSlime \<and> 0 \<le> landingFastFallDistance yellowSlime"
    by (simp add: yellowSlime_def)
  have d: "distFactor yellowSlime = 1"
    using c f by (simp add: yellowSlime_def Clamp_def)
  have t: "spec_perfectTarget (lastApexHeight yellowSlime) (perfectStreak yellowSlime + 1) 1
             = 1170"
    by (simp add: yellowSlime_def spec_perfectTarget_def spec_lerp_def spec_growthRate_def
        spec_streakMultiplier_def)
  have m: "perfectTargetHeight 900 3 0 < perfectTargetHeight 900 3 1"
    using c by simp
  show ?thesis using c a d t m yellowSlime_PERFECT by simp
qed

text \<open>
  C4. A landing is reported with rating PERFECT only by \<open>launchActiveControlled\<close>, and then
  the lockout flag it passes is false (a PERFECT rating excludes the lockout); the health
  manager answers such a report by changing nothing: no damage, no death.
\<close>

theorem C4_perfect_landing_leaves_health_unchanged:
  "onLanding hm heightPixels PERFECT False = hm \<and>
   (fst (launchActiveControlled cfg s) = PERFECT \<longrightarrow>
      \<not> holdLockout s \<and>
      onLanding (healthManager s) (lastApexHeight s) PERFECT (holdLockout s)
        = healthManager s \<and>
      healthManager (snd (launchActiveControlled cfg s)) = healthManager s)"
proof (intro conjI impI)
  show "onLanding hm heightPixels PERFECT False = hm"
    by (rule onLanding_PERFECT_no_lockout)
  assume "fst (launchActiveControlled cfg s) = PERFECT"
  then have r: "releaseRating cfg s = PERFECT"
    by (simp add: launch_rating)
  show l: "\<not> holdLockout s"
    using r by (rule releaseRating_PERFECT_no_lockout)
  show h: "onLanding (healthManager s) (lastApexHeight s) PERFECT (holdLockout s)
             = healthManager s"
    using l by (simp add: onLanding_PERFECT_no_lockout)
  show "healthManager (snd (launchActiveControlled cfg s)) = healthManager s"
    using r h
    by (simp add: launchActiveControlled_def Let_def transitionTo_def IdleState_enter_def
        AirborneState_enter_def showFeedback_def)
qed

theorem C4_perfect_landing_leaves_health_unchanged_witness:
  "fst (launchActiveControlled exampleConfig yellowSlime) = PERFECT \<and>
   healthManager (snd (launchActiveControlled exampleConfig yellowSlime)) = freshHealth \<and>
   currentHealth freshHealth = 100 \<and> \<not> isDead freshHealth"
proof -
  have "healthManager (snd (launchActiveControlled exampleConfig yellowSlime))
          = healthManager yellowSlime"
    using C4_perfect_landing_leaves_health_unchanged [of _ _ exampleConfig yellowSlime]
      yellowSlime_PERFECT by blast
  then show ?thesis
    using yellowSlime_PERFECT by (simp add: yellowSlime_def freshHealth_def)
qed

section \<open>The monster director: count, band, type\<close>

lemma Clamp_mono: "a \<le> b \<Longrightarrow> Clamp a lo hi \<le> Clamp b lo hi"
  by (simp add: Clamp_def max_def min_def)

lemma Clamp_lower: "lo \<le> Clamp v lo hi"
  by (simp add: Clamp_def)

lemma Clamp_self: "Clamp lo lo hi = lo"
  by (simp add: Clamp_def max_def min_def)

lemma Clamp_spec:
  "lo \<le> hi \<Longrightarrow> Clamp v lo hi = (if v < lo then lo else if v > hi then hi else v)"
  by (simp add: Clamp_def max_def min_def)

lemma targetCount_unfold:
  "targetCount d apex mult =
     max 1 (of_int (round (Clamp (rawCount (orDefault (baseCount d) 4)
        (orDefault (refHeightM d) 50) (orDefault (countGrowthFactor d) 2.5) apex)
        (orDefault (baseCount d) 4) (orDefault (maxCount d) 12) * mult)))"
  by (simp add: targetCount_def rawCount_def Let_def)

lemma clamped_rawCount_mono:
  assumes "0 < rh" "0 \<le> gf" "apex \<le> apex'"
  shows "Clamp (rawCount bc rh gf apex) bc mc \<le> Clamp (rawCount bc rh gf apex') bc mc"
proof (cases "apex' \<le> rh")
  case True
  then show ?thesis using assms by (simp add: rawCount_def)
next
  case False
  show ?thesis
  proof (cases "apex \<le> rh")
    case True
    then have "Clamp (rawCount bc rh gf apex) bc mc = bc"
      by (simp add: rawCount_def Clamp_self)
    then show ?thesis by (simp add: Clamp_lower)
  next
    case above: False
    have "0 < apex / rh" "apex / rh \<le> apex' / rh"
      using assms above by (simp_all add: divide_right_mono)
    then have "log 2 (apex / rh) \<le> log 2 (apex' / rh)"
      by simp
    then have "bc + log 2 (apex / rh) * gf \<le> bc + log 2 (apex' / rh) * gf"
      using assms(2) by (simp add: mult_right_mono)
    then have "rawCount bc rh gf apex \<le> rawCount bc rh gf apex'"
      using False above by (simp add: rawCount_def floor_mono)
    then show ?thesis by (rule Clamp_mono)
  qed
qed

lemma scaled_round_mono:
  assumes "0 \<le> bc" "bc \<le> t" "t \<le> t'"
  shows "max 1 (real_of_int (round (t * mult))) \<le> max 1 (real_of_int (round (t' * mult)))"
proof (cases "0 \<le> mult")
  case True
  then have "t * mult \<le> t' * mult" using assms by (simp add: mult_right_mono)
  then have "round (t * mult) \<le> round (t' * mult)" by (rule round_mono)
  then show ?thesis by simp
next
  case False
  then have "t * mult \<le> 0" "t' * mult \<le> 0"
    using assms by (simp_all add: mult_nonneg_nonpos)
  then have "round (t * mult) \<le> 0" "round (t' * mult) \<le> 0"
    using round_mono [of "t * mult" 0] round_mono [of "t' * mult" 0] by simp_all
  then show ?thesis by simp
qed

lemma targetCount_mono:
  assumes "0 < orDefault (refHeightM d) 50" "0 \<le> orDefault (countGrowthFactor d) 2.5"
    "0 \<le> orDefault (baseCount d) 4" "apex \<le> apex'"
  shows "targetCount d apex mult \<le> targetCount d apex' mult"
  unfolding targetCount_unfold
  by (rule scaled_round_mono [OF assms(3) Clamp_lower clamped_rawCount_mono [OF assms(1,2,4)]])

lemma targetCount_spec:
  assumes "orDefault (baseCount d) 4 \<le> orDefault (maxCount d) 12"
  shows "targetCount d apex mult =
     spec_targetCount (orDefault (baseCount d) 4) (orDefault (maxCount d) 12)
       (orDefault (refHeightM d) 50) (orDefault (countGrowthFactor d) 2.5) apex mult"
  using assms by (simp add: targetCount_def spec_targetCount_def Let_def Clamp_spec)

lemma targetCount_base:
  assumes "orDefault (baseCount d) 4 = of_int k" "1 \<le> k" "apex \<le> orDefault (refHeightM d) 50"
  shows "targetCount d apex 1 = orDefault (baseCount d) 4"
  using assms by (simp add: targetCount_def Let_def Clamp_self)

text \<open>
  C5. For a director configuration whose base count does not exceed its maximum count,
  the count of the code is the count of the specification, for every apex height and
  multiplier. With multiplier 1 and an apex height up to the reference height it is the
  base count (a whole number, at least 1). It is non-decreasing in the apex height (for a
  positive reference height, and a growth factor and base count that are not negative).
  The defaults 4, 12, 50 and 2.5 meet all of these conditions.
\<close>

theorem C5_target_count:
  "(orDefault (baseCount d) 4 \<le> orDefault (maxCount d) 12 \<longrightarrow>
      targetCount d apex mult =
        spec_targetCount (orDefault (baseCount d) 4) (orDefault (maxCount d) 12)
          (orDefault (refHeightM d) 50) (orDefault (countGrowthFactor d) 2.5) apex mult) \<and>
   (orDefault (baseCount d) 4 = of_int k \<and> 1 \<le> k \<and> apex \<le> orDefault (refHeightM d) 50 \<longrightarrow>
      targetCount d apex 1 = orDefault (baseCount d) 4) \<and>
   (0 < orDefault (refHeightM d) 50 \<and> 0 \<le> orDefault (countGrowthFactor d) 2.5 \<and>
    0 \<le> orDefault (baseCount d) 4 \<and> apex \<le> apex' \<longrightarrow>
      targetCount d apex mult \<le> targetCount d apex' mult)"
  using targetCount_spec targetCount_base targetCount_mono by blast

theorem C5_target_count_witness:
  "targetCount defaultDirector 30 1 = 4 \<and>
   targetCount defaultDirector 100 (1 / 2) = spec_targetCount 4 12 50 2.5 100 (1 / 2) \<and>
   spec_targetCount 4 12 50 2.5 100 (1 / 2) = 3 \<and>
   targetCount defaultDirector 100 1 \<le> targetCount defaultDirector 800 1"
proof -
  note c = C5_target_count [of defaultDirector _ _ 4]
  have "targetCount defaultDirector 30 1 = 4"
    using c [of 30 1 30] by (simp add: defaultDirector_def orDefault_def)
  moreover have "targetCount defaultDirector 100 (1 / 2) = spec_targetCount 4 12 50 2.5 100 (1 / 2)"
    using c [of 100 "1 / 2" 100] by (simp add: defaultDirector_def orDefault_def)
  moreover have "spec_targetCount 4 12 50 2.5 100 (1 / 2) = 3"
  proof -
    have "\<lfloor>4 + 5 / 2 :: real\<rfloor> = 6" by linarith
    moreover have "round (3 :: real) = 3" by simp
    ultimately show ?thesis by (simp add: spec_targetCount_def Let_def)
  qed
  moreover have "targetCount defaultDirector 100 1 \<le> targetCount defaultDirector 800 1"
    using c [of 100 1 800] by (simp add: defaultDirector_def orDefault_def)
  ultimately show ?thesis by blast
qed

lemma spawn_band:
  assumes "apexRangeStart d = 0.85" "apexRangeEndBase d = None" "apexRangeEndMin d = None"
    "apexRangeEndTau d = None" "0 < apex"
  shows "rangeStartM d apex = 0.85 * apex"
    "rangeEndM d apex = apex * (0.91 + (0.98 - 0.91) * exp (- apex / 600))"
    "rangeStartM d apex < rangeEndM d apex" "rangeEndM d apex \<le> apex"
proof -
  define E where "E = exp (- apex / 600)"
  have e: "0 < E" "E < 1"
    using assms(5) by (simp_all add: E_def)
  show "rangeStartM d apex = 0.85 * apex"
    by (simp add: rangeStartM_def assms)
  have r: "rangeEndM d apex = apex * (0.91 + (0.98 - 0.91) * E)"
    by (simp add: rangeEndM_def dynamicRangeEnd_def assms orDefault_def E_def)
  then show "rangeEndM d apex = apex * (0.91 + (0.98 - 0.91) * exp (- apex / 600))"
    by (simp add: E_def)
  have "0.85 < 0.91 + (0.98 - 0.91) * E"
    using e by simp
  then have "apex * 0.85 < apex * (0.91 + (0.98 - 0.91) * E)"
    using assms(5) by (rule mult_strict_left_mono)
  then show "rangeStartM d apex < rangeEndM d apex"
    unfolding r by (simp add: rangeStartM_def assms(1))
  have "0.91 + (0.98 - 0.91) * E \<le> 1"
    using e by simp
  then have "apex * (0.91 + (0.98 - 0.91) * E) \<le> apex * 1"
    using assms(5) by (intro mult_left_mono) simp_all
  then show "rangeEndM d apex \<le> apex"
    unfolding r by simp
qed

text \<open>
  C6, as the claim states it, fails at apex height 0: the band is the single point 0, so
  its start is not below its end.
\<close>

theorem C6_zero_apex_band_is_empty:
  "rangeStartM defaultDirector 0 = 0 \<and> rangeEndM defaultDirector 0 = 0 \<and>
   \<not> rangeStartM defaultDirector 0 < rangeEndM defaultDirector 0"
  by (simp add: rangeStartM_def rangeEndM_def)

text \<open>
  C6, amended: for every positive apex height, with the band starting at 0.85 of the apex
  and the defaults 0.91, 0.98 and 600, the band is
  \<open>rangeStartM = 0.85 \<cdot> apex < rangeEndM \<le> apex\<close> with
  \<open>rangeEndM = apex \<cdot> (0.91 + (0.98 - 0.91) \<cdot> e^(-apex/600))\<close>.
\<close>

theorem C6_spawn_band:
  "apexRangeStart d = 0.85 \<and> apexRangeEndBase d = None \<and> apexRangeEndMin d = None \<and>
   apexRangeEndTau d = None \<and> 0 < apex \<longrightarrow>
     rangeStartM d apex = 0.85 * apex \<and>
     rangeEndM d apex = apex * (0.91 + (0.98 - 0.91) * exp (- apex / 600)) \<and>
     rangeStartM d apex < rangeEndM d apex \<and> rangeEndM d apex \<le> apex"
  using spawn_band by blast

theorem C6_spawn_band_witness:
  "rangeStartM defaultDirector 600 = 510 \<and>
   rangeEndM defaultDirector 600 = 600 * (0.91 + (0.98 - 0.91) * exp (- 1)) \<and>
   rangeStartM defaultDirector 600 < rangeEndM defaultDirector 600 \<and>
   rangeEndM defaultDirector 600 \<le> 600"
proof -
  have "apexRangeStart defaultDirector = 0.85 \<and> apexRangeEndBase defaultDirector = None \<and>
    apexRangeEndMin defaultDirector = None \<and> apexRangeEndTau defaultDirector = None \<and>
    (0 :: real) < 600"
    by (simp add: defaultDirector_def)
  then show ?thesis
    using C6_spawn_band [of defaultDirector 600] by simp
qed

text \<open>
  C7. At every altitude from 0 to 1100 m the four type weights sum to more than 0.
\<close>

theorem C7_total_weight_positive:
  "0 \<le> h \<and> h \<le> 1100 \<longrightarrow> 0 < totalTypeWeight h"
  by (simp add: totalTypeWeight_def a01Weight_def a02Weight_def a03Weight_def
      cloudWeight_def add_pos_nonneg)

theorem C7_total_weight_positive_witness:
  "0 < totalTypeWeight 0 \<and> 0 < totalTypeWeight 199 \<and> 0 < totalTypeWeight 200 \<and>
   0 < totalTypeWeight 400 \<and> 0 < totalTypeWeight 599 \<and> 0 < totalTypeWeight 600 \<and>
   0 < totalTypeWeight 799 \<and> 0 < totalTypeWeight 800 \<and> 0 < totalTypeWeight 999 \<and>
   0 < totalTypeWeight 1000 \<and> 0 < totalTypeWeight 1099 \<and> 0 < totalTypeWeight 1100"
  using C7_total_weight_positive [of 0] C7_total_weight_positive [of 199]
    C7_total_weight_positive [of 200] C7_total_weight_positive [of 400]
    C7_total_weight_positive [of 599] C7_total_weight_positive [of 600]
    C7_total_weight_positive [of 799] C7_total_weight_positive [of 800]
    C7_total_weight_positive [of 999] C7_total_weight_positive [of 1000]
    C7_total_weight_positive [of 1099] C7_total_weight_positive [of 1100]
  by simp

lemma selectFromWeights_total: "\<exists>t. selectFromWeights w1 w2 w3 wc rnd = Some t"
  by (simp add: selectFromWeights_def Let_def split: option.splits list.splits)

lemma selectFromWeights_fallback:
  "w1 \<le> 0.01 \<and> w2 \<le> 0.01 \<and> w3 \<le> 0.01 \<and> wc \<le> 0.01 \<Longrightarrow>
   selectFromWeights w1 w2 w3 wc rnd = Some A03"
  by (simp add: selectFromWeights_def candidates_def)

text \<open>
  With the weight curves of the code some weight exceeds 0.01 at every altitude, so the
  fallback is not taken for any real altitude.
\<close>

lemma some_candidate_at_every_altitude:
  "candidates (a01Weight h) (a02Weight h) (a03Weight h) (cloudWeight h) \<noteq> []"
proof -
  consider "h < 200" | "200 \<le> h" "h < 400" | "400 \<le> h" "h < 600" | "600 \<le> h" "h < 700"
    | "700 \<le> h" "h < 1000" | "1000 \<le> h"
    by linarith
  then show ?thesis
  proof cases
    case 1
    then show ?thesis by (simp add: candidates_def a01Weight_def)
  next
    case 2
    then show ?thesis by (simp add: candidates_def a01Weight_def)
  next
    case 3
    then show ?thesis by (simp add: candidates_def a02Weight_def)
  next
    case 4
    define x where "x = - 3 * ((h - 600) / (1000 - 600))"
    have "1 + x \<le> exp x"
      by (rule exp_ge_add_one_self)
    moreover have "0.01 < 1 + x"
      using 4 by (simp add: x_def field_simps)
    ultimately have "0.01 < exp x"
      by linarith
    moreover have "a02Weight h = exp x"
      using 4 unfolding a02Weight_def x_def by simp
    ultimately have "0.01 < a02Weight h"
      by simp
    then show ?thesis by (simp add: candidates_def)
  next
    case 5
    then show ?thesis by (simp add: candidates_def a03Weight_def)
  next
    case 6
    then show ?thesis by (simp add: candidates_def a03Weight_def)
  qed
qed

text \<open>
  C8. The selection returns a type at every altitude and for every random number (it never
  reads the first entry of an empty candidate list), and when none of the four weights
  exceeds 0.01 the candidate stage returns A03. The second part is stated for the
  candidate stage with arbitrary weights, of which \<open>selectMonsterType\<close> is the instance at
  the weights of the altitude.
\<close>

theorem C8_selection_total_with_fallback:
  "(\<exists>t. selectMonsterType heightM rnd = Some t) \<and>
   selectMonsterType heightM rnd =
     selectFromWeights (a01Weight heightM) (a02Weight heightM) (a03Weight heightM)
       (cloudWeight heightM) rnd \<and>
   (w1 \<le> 0.01 \<and> w2 \<le> 0.01 \<and> w3 \<le> 0.01 \<and> wc \<le> 0.01 \<longrightarrow>
      selectFromWeights w1 w2 w3 wc rnd = Some A03)"
  using selectFromWeights_total selectFromWeights_fallback
  by (simp add: selectMonsterType_def)

theorem C8_selection_total_with_fallback_witness:
  "selectFromWeights 0 0 0 (1 / 100) (1 / 2) = Some A03"
  using C8_selection_total_with_fallback [of 0 "1 / 2" 0 0 0 "1 / 100"] by simp

section \<open>The deformable ground: the offset range\<close>

lemma columnStep_shape:
  "BLOCKS_PER_ROW (columnStep h g i) = BLOCKS_PER_ROW g \<and>
   length (yOffset (columnStep h g i)) = length (yOffset g) \<and>
   length (yVel (columnStep h g i)) = length (yVel g) \<and>
   force (columnStep h g i) = force g"
  by (simp add: columnStep_def Let_def)

lemma columnStep_other: "j \<noteq> i \<Longrightarrow> yOffset (columnStep h g i) ! j = yOffset g ! j"
  by (simp add: columnStep_def Let_def)

lemma columnStep_clamped:
  "i < length (yOffset g) \<Longrightarrow> offsetInRange (yOffset (columnStep h g i) ! i)"
  by (simp add: columnStep_def Let_def offsetInRange_def MAX_OFFSET_def)

text \<open>After the loop has passed column \<open>k\<close>, the columns below \<open>k\<close> are in range.\<close>

lemma sweep_prefix:
  "k \<le> length (yOffset g) \<Longrightarrow>
   BLOCKS_PER_ROW (foldl (columnStep h) g [0..<k]) = BLOCKS_PER_ROW g \<and>
   length (yOffset (foldl (columnStep h) g [0..<k])) = length (yOffset g) \<and>
   length (yVel (foldl (columnStep h) g [0..<k])) = length (yVel g) \<and>
   force (foldl (columnStep h) g [0..<k]) = force g \<and>
   (\<forall>j < k. offsetInRange (yOffset (foldl (columnStep h) g [0..<k]) ! j))"
proof (induction k)
  case 0
  then show ?case by simp
next
  case (Suc k)
  let ?g = "foldl (columnStep h) g [0..<k]"
  have ih: "BLOCKS_PER_ROW ?g = BLOCKS_PER_ROW g" "length (yOffset ?g) = length (yOffset g)"
    "length (yVel ?g) = length (yVel g)" "force ?g = force g"
    "\<forall>j < k. offsetInRange (yOffset ?g ! j)"
    using Suc by simp_all
  have step: "foldl (columnStep h) g [0..<Suc k] = columnStep h ?g k"
    by simp
  have "offsetInRange (yOffset (columnStep h ?g k) ! j)" if "j < Suc k" for j
  proof (cases "j = k")
    case True
    then show ?thesis using Suc.prems ih(2) by (simp add: columnStep_clamped)
  next
    case False
    then have "j < k" using that by simp
    then show ?thesis using False ih(5) by (simp add: columnStep_other)
  qed
  then show ?case
    unfolding step using ih columnStep_shape [of h ?g k] by simp
qed

lemma subStep_invariant: "wellFormed g \<Longrightarrow> groundInvariant (subStep h g)"
  using sweep_prefix [of "BLOCKS_PER_ROW g" g h]
  by (simp add: wellFormed_def groundInvariant_def subStep_def)

lemma computeForce_wellFormed: "wellFormed g \<Longrightarrow> wellFormed (computeForce g depth px)"
  by (simp add: wellFormed_def computeForce_def)

lemma render_invariant: "wellFormed g \<Longrightarrow> groundInvariant (render dt depth px g)"
proof -
  assume "wellFormed g"
  then have "wellFormed (computeForce g depth px)"
    by (rule computeForce_wellFormed)
  then have "groundInvariant (subStep (dt / 2) (computeForce g depth px))"
    by (rule subStep_invariant)
  then have "wellFormed (subStep (dt / 2) (computeForce g depth px))"
    by (simp add: groundInvariant_def)
  then show ?thesis
    by (simp add: render_def Let_def subStep_invariant)
qed

lemma newGround_invariant: "groundInvariant (newGround width)"
  by (simp add: groundInvariant_def wellFormed_def newGround_def Let_def offsetInRange_def
      MAX_OFFSET_def)

text \<open>
  C9. The ground starts with every column offset in \<open>[-0.3 \<cdot> MAX_OFFSET, MAX_OFFSET]\<close>, and
  after every substep, hence after every tick, of a ground whose arrays have one entry per
  column, every column offset is in that range, whatever the offsets, velocities, forces,
  step length and pressure were before.
\<close>

theorem C9_offsets_stay_in_range:
  "groundInvariant (newGround width) \<and>
   (wellFormed g \<longrightarrow>
      groundInvariant (subStep h g) \<and> groundInvariant (render dt depressionDepth playerX g))"
  using newGround_invariant subStep_invariant render_invariant by blast

theorem C9_offsets_stay_in_range_witness:
  "wellFormed bentGround \<and> \<not> offsetInRange (yOffset bentGround ! 2) \<and>
   groundInvariant (subStep (1 / 240) bentGround) \<and>
   - 18 \<le> yOffset (subStep (1 / 240) bentGround) ! 2 \<and>
   yOffset (subStep (1 / 240) bentGround) ! 2 \<le> 60"
proof -
  have w: "wellFormed bentGround"
    by (simp add: wellFormed_def bentGround_def)
  have n: "\<not> offsetInRange (yOffset bentGround ! 2)"
    by (simp add: bentGround_def offsetInRange_def MAX_OFFSET_def)
  have i: "groundInvariant (subStep (1 / 240) bentGround)"
    using C9_offsets_stay_in_range [of 0 bentGround "1 / 240"] w by blast
  have b: "BLOCKS_PER_ROW (subStep (1 / 240) bentGround) = 5"
    using sweep_prefix [of 5 bentGround "1 / 240"]
    by (simp add: subStep_def bentGround_def)
  have "offsetInRange (yOffset (subStep (1 / 240) bentGround) ! 2)"
    using i b by (simp add: groundInvariant_def)
  then show ?thesis
    using w n i by (simp add: offsetInRange_def MAX_OFFSET_def)
qed


section \<open>The deformable ground: return to rest\<close>

text \<open>
  The argument is an energy estimate. One column step lowers the energy of the chain by at
  least \<^const>\<open>dissipation\<close>: the step without the clamp lowers it by exactly that much, and the
  clamp moves the offset towards the range in which its neighbours are, which lowers the
  potential energy further. For a substep h of at most 1/30 s the loss is at least a
  twentieth of the square of the velocity change plus 9/2 h times the square of the new
  velocity, which over one sweep of the columns adds up to at least 3 h h times the
  energy that is left.
\<close>

lemma laplacian_cases:
  "i < n \<Longrightarrow> laplacian n u i =
     (if 0 < i then u (i - 1) else u i) - 2 * u i + (if Suc i < n then u (Suc i) else u i)"
proof -
  assume a: "i < n"
  have l: "nat (max 0 (int i - 1)) = i - 1"
    by simp
  have r: "nat (min (int n - 1) (int i + 1)) = (if Suc i < n then Suc i else i)"
    using a by (auto simp: min_def nat_add_distrib)
  show ?thesis
    unfolding laplacian_def l r by (cases i) auto
qed

lemma sum_sq_update:
  fixes u :: "nat \<Rightarrow> real"
  assumes "i < n"
  shows "(\<Sum>j<n. ((u(i := b)) j)\<^sup>2) = (\<Sum>j<n. (u j)\<^sup>2) - (u i)\<^sup>2 + b\<^sup>2"
proof -
  have "(\<Sum>j<n. ((u(i := b)) j)\<^sup>2) = (\<Sum>j<n. (u j)\<^sup>2 + (if j = i then b\<^sup>2 - (u i)\<^sup>2 else 0))"
    by (rule sum.cong) (auto simp: algebra_simps)
  also have "\<dots> = (\<Sum>j<n. (u j)\<^sup>2) + (\<Sum>j<n. if j = i then b\<^sup>2 - (u i)\<^sup>2 else 0)"
    by (rule sum.distrib)
  also have "(\<Sum>j<n. if j = i then b\<^sup>2 - (u i)\<^sup>2 else 0) = b\<^sup>2 - (u i)\<^sup>2"
    using assms by simp
  finally show ?thesis by simp
qed

lemma sum_diff_update:
  fixes u :: "nat \<Rightarrow> real"
  assumes "i < n"
  shows "(\<Sum>j<n - 1. ((u(i := u i + d)) (Suc j) - (u(i := u i + d)) j)\<^sup>2) =
     (\<Sum>j<n - 1. (u (Suc j) - u j)\<^sup>2) +
     (if Suc i < n then (u (Suc i) - (u i + d))\<^sup>2 - (u (Suc i) - u i)\<^sup>2 else 0) +
     (if 0 < i then ((u i + d) - u (i - 1))\<^sup>2 - (u i - u (i - 1))\<^sup>2 else 0)"
proof -
  let ?A = "(u (Suc i) - (u i + d))\<^sup>2 - (u (Suc i) - u i)\<^sup>2"
  let ?B = "((u i + d) - u (i - 1))\<^sup>2 - (u i - u (i - 1))\<^sup>2"
  have pt: "((u(i := u i + d)) (Suc j) - (u(i := u i + d)) j)\<^sup>2 =
      (u (Suc j) - u j)\<^sup>2 + (if j = i then ?A else 0) + (if 0 < i then (if j = i - 1 then ?B else 0) else 0)"
    for j
    by (cases "j = i"; cases "Suc j = i") (auto simp: algebra_simps)
  have "(\<Sum>j<n - 1. ((u(i := u i + d)) (Suc j) - (u(i := u i + d)) j)\<^sup>2) =
      (\<Sum>j<n - 1. (u (Suc j) - u j)\<^sup>2 + (if j = i then ?A else 0) +
         (if 0 < i then (if j = i - 1 then ?B else 0) else 0))"
    by (rule sum.cong [OF refl]) (rule pt)
  also have "\<dots> = (\<Sum>j<n - 1. (u (Suc j) - u j)\<^sup>2) + (\<Sum>j<n - 1. if j = i then ?A else 0) +
      (\<Sum>j<n - 1. if 0 < i then (if j = i - 1 then ?B else 0) else 0)"
    by (simp only: sum.distrib)
  also have "(\<Sum>j<n - 1. if j = i then ?A else 0) = (if Suc i < n then ?A else 0)"
    by (auto simp: less_diff_conv)
  also have "(\<Sum>j<n - 1. if 0 < i then (if j = i - 1 then ?B else 0) else 0) =
      (if 0 < i then ?B else 0)"
    using assms by (cases "0 < i") auto
  finally show ?thesis .
qed

lemma potential_update:
  assumes "i < n"
  shows "potentialEnergy n (u(i := u i + d)) =
     potentialEnergy n u + d * potentialGradient n u i + localStiffness n i / 2 * d\<^sup>2"
  unfolding potentialEnergy_def sum_sq_update[OF assms] sum_diff_update[OF assms]
    potentialGradient_def laplacian_cases[OF assms] localStiffness_def
  using assms by (cases "i = 0") (auto simp: power2_eq_square field_simps)

lemma clampOffset_range: "offsetInRange (clampOffset x)"
  by (simp add: clampOffset_def offsetInRange_def MAX_OFFSET_def)

lemma clampOffset_cases:
  "(x < - 18 \<and> clampOffset x = - 18) \<or> (- 18 \<le> x \<and> x \<le> 60 \<and> clampOffset x = x) \<or>
   (60 < x \<and> clampOffset x = 60)"
  by (auto simp: clampOffset_def MAX_OFFSET_def max_def min_def)

lemma clampOffset_move:
  assumes "offsetInRange z"
  shows "\<bar>clampOffset (z + e) - z\<bar> \<le> \<bar>e\<bar>"
  using assms clampOffset_cases [of "z + e"]
  by (auto simp: offsetInRange_def MAX_OFFSET_def)

lemma grad_split: "i < n \<Longrightarrow> potentialGradient n u i = localStiffness n i * u i - TENSION * nbrSum n u i"
  unfolding potentialGradient_def localStiffness_def nbrSum_def
  by (cases "0 < i"; cases "Suc i < n") (auto simp: laplacian_cases algebra_simps)

lemma nbrSum_bounds:
  assumes "i < n" "inRange n u"
  shows "- 18 * (localStiffness n i - STIFFNESS) \<le> TENSION * nbrSum n u i"
    and "TENSION * nbrSum n u i \<le> 60 * (localStiffness n i - STIFFNESS)"
proof -
  have l: "0 < i \<Longrightarrow> - 18 \<le> u (i - 1) \<and> u (i - 1) \<le> 60"
    using assms by (simp add: inRange_def offsetInRange_def MAX_OFFSET_def)
  have r: "Suc i < n \<Longrightarrow> - 18 \<le> u (Suc i) \<and> u (Suc i) \<le> 60"
    using assms by (simp add: inRange_def offsetInRange_def MAX_OFFSET_def)
  show "- 18 * (localStiffness n i - STIFFNESS) \<le> TENSION * nbrSum n u i"
    using l r by (cases "0 < i"; cases "Suc i < n") (simp_all add: localStiffness_def nbrSum_def TENSION_def)
  show "TENSION * nbrSum n u i \<le> 60 * (localStiffness n i - STIFFNESS)"
    using l r by (cases "0 < i"; cases "Suc i < n") (simp_all add: localStiffness_def nbrSum_def TENSION_def)
qed

lemma localStiffness_bounds: "STIFFNESS \<le> localStiffness n i \<and> localStiffness n i \<le> STIFFNESS + 2 * TENSION"
  by (simp add: localStiffness_def TENSION_def)

text \<open>The potential energy as a function of one offset, and what the clamp does to it.\<close>

lemma potential_at:
  assumes "i < n"
  shows "potentialEnergy n (u(i := z)) =
     potentialEnergy n u + (z - u i) * potentialGradient n u i + localStiffness n i / 2 * (z - u i)\<^sup>2"
  using potential_update [OF assms, of u "z - u i"] by simp

lemma potential_clamp:
  assumes "i < n" "inRange n u"
  shows "potentialEnergy n (u(i := clampOffset x)) \<le> potentialEnergy n (u(i := x))"
proof -
  define c where "c = clampOffset x"
  define k where "k = localStiffness n i"
  define N where "N = TENSION * nbrSum n u i"
  define z where "z = u i"
  have g: "potentialGradient n u i = k * z - N"
    unfolding k_def N_def z_def using assms(1) by (rule grad_split)
  have kb: "90 \<le> k"
    using localStiffness_bounds [of n i] by (simp add: k_def STIFFNESS_def)
  have nb: "- 18 * (k - 90) \<le> N" "N \<le> 60 * (k - 90)"
    using nbrSum_bounds [OF assms] by (simp_all add: k_def N_def STIFFNESS_def)
  have "0 \<le> (x - c) * (k * (x + c) / 2 - N)"
  proof -
    consider "x < - 18" "c = - 18" | "c = x" | "60 < x" "c = 60"
      using clampOffset_cases [of x] unfolding c_def by blast
    then show ?thesis
    proof cases
      case 1
      define kx where "kx = k * x"
      have "k * x \<le> k * (- 18)"
        using 1 kb by (intro mult_left_mono) simp_all
      then have "kx \<le> - 18 * k"
        unfolding kx_def by simp
      then have "(kx + k * (- 18)) / 2 - N \<le> 0"
        using nb(1) kb by argo
      then have "k * (x + c) / 2 - N \<le> 0"
        unfolding 1(2) kx_def by (simp add: algebra_simps)
      moreover have "x - c \<le> 0"
        using 1 by simp
      ultimately show ?thesis
        by (rule mult_nonpos_nonpos [rotated])
    next
      case 2
      then show ?thesis by simp
    next
      case 3
      define kx where "kx = k * x"
      have "k * 60 \<le> k * x"
        using 3 kb by (intro mult_left_mono) simp_all
      then have "60 * k \<le> kx"
        unfolding kx_def by simp
      then have "0 \<le> (kx + k * 60) / 2 - N"
        using nb(2) kb by argo
      then have "0 \<le> k * (x + c) / 2 - N"
        unfolding 3(2) kx_def by (simp add: algebra_simps)
      moreover have "0 \<le> x - c"
        using 3 by simp
      ultimately show ?thesis
        by (rule mult_nonneg_nonneg [rotated])
    qed
  qed
  moreover have "potentialEnergy n (u(i := x)) - potentialEnergy n (u(i := c)) =
      (x - c) * (k * (x + c) / 2 - N)"
    unfolding potential_at [OF assms(1)] g k_def [symmetric] z_def [symmetric]
    by (simp add: power2_eq_square field_simps)
  ultimately show ?thesis
    unfolding c_def by simp
qed

lemma chainStep_eq:
  "chainStep h n i s =
     ((fst s)(i := clampOffset (fst s i + newVel h n i s * h)), (snd s)(i := newVel h n i s))"
  by (simp add: chainStep_def Let_def newVel_def potentialGradient_def)

lemma chainStep_energy:
  assumes "i < n" "inRange n (fst s)"
  shows "energyOf n (chainStep h n i s) + dissipation h (localStiffness n i) (newVel h n i s - snd s i) (newVel h n i s)
     \<le> energyOf n s"
proof -
  define u where "u = fst s"
  define w where "w = snd s"
  define G where "G = potentialGradient n u i"
  define V where "V = newVel h n i s"
  have v: "V = w i + (- G - DAMPING * w i) * h"
    unfolding V_def G_def u_def w_def by (rule newVel_def)
  have st: "chainStep h n i s = (u(i := clampOffset (u i + V * h)), w(i := V))"
    unfolding u_def w_def V_def by (rule chainStep_eq)
  have k: "kineticEnergy n (w(i := V)) = kineticEnergy n w - (w i)\<^sup>2 / 2 + V\<^sup>2 / 2"
    unfolding kineticEnergy_def sum_sq_update [OF assms(1)] by (simp add: field_simps)
  have "potentialEnergy n (u(i := clampOffset (u i + V * h))) \<le> potentialEnergy n (u(i := u i + V * h))"
    using assms unfolding u_def [symmetric] by (rule potential_clamp)
  also have "\<dots> = potentialEnergy n u + (V * h) * G + localStiffness n i / 2 * (V * h)\<^sup>2"
    unfolding G_def by (rule potential_update [OF assms(1)])
  finally have p: "potentialEnergy n (u(i := clampOffset (u i + V * h)))
      \<le> potentialEnergy n u + (V * h) * G + localStiffness n i / 2 * (V * h)\<^sup>2" .
  have "- (w i)\<^sup>2 / 2 + V\<^sup>2 / 2 + (V * h) * G + localStiffness n i / 2 * (V * h)\<^sup>2 =
      - dissipation h (localStiffness n i) (V - w i) V"
    unfolding dissipation_def v by (simp add: power2_eq_square field_simps)
  then have "kineticEnergy n (w(i := V)) + potentialEnergy n (u(i := clampOffset (u i + V * h)))
      + dissipation h (localStiffness n i) (V - w i) V \<le> kineticEnergy n w + potentialEnergy n u"
    unfolding k using p by linarith
  then show ?thesis
    unfolding energyOf_def st unfolding V_def w_def u_def by simp
qed

lemma chainStep_other:
  "j \<noteq> i \<Longrightarrow> fst (chainStep h n i s) j = fst s j \<and> snd (chainStep h n i s) j = snd s j"
  by (simp add: chainStep_eq)

lemma chainStep_inRange: "inRange n (fst s) \<Longrightarrow> inRange n (fst (chainStep h n i s))"
  by (simp add: chainStep_eq inRange_def clampOffset_range)

lemma chainSweep_inRange: "inRange n (fst s) \<Longrightarrow> inRange n (fst (chainSweep h n k s))"
  by (induction k) (simp_all add: chainStep_inRange)

lemma chainSweep_beyond:
  "k \<le> j \<Longrightarrow> fst (chainSweep h n k s) j = fst s j \<and> snd (chainSweep h n k s) j = snd s j"
  by (induction k) (simp_all add: chainStep_other)

lemma chainSweep_frozen:
  "k \<le> m \<Longrightarrow> j < k \<Longrightarrow>
   fst (chainSweep h n m s) j = fst (chainSweep h n k s) j \<and>
   snd (chainSweep h n m s) j = snd (chainSweep h n k s) j"
proof (induction m)
  case 0
  then show ?case by simp
next
  case (Suc m)
  show ?case
  proof (cases "k = Suc m")
    case True
    then show ?thesis by simp
  next
    case False
    then have "k \<le> m" using Suc.prems by simp
    moreover have "j \<noteq> m" using Suc.prems False by simp
    ultimately show ?thesis using Suc by (simp add: chainStep_other)
  qed
qed

text \<open>The velocity and the offset of column i after the sweep.\<close>

lemma chainSweep_column:
  assumes "i < n"
  shows "snd (chainSweep h n n s) i = newVel h n i (chainSweep h n i s)"
    and "snd (chainSweep h n n s) i =
           snd s i + (- potentialGradient n (fst (chainSweep h n i s)) i - DAMPING * snd s i) * h"
    and "fst (chainSweep h n n s) i = clampOffset (fst s i + snd (chainSweep h n n s) i * h)"
proof -
  have b: "fst (chainSweep h n i s) i = fst s i" "snd (chainSweep h n i s) i = snd s i"
    using chainSweep_beyond [of i i] by simp_all
  have f: "fst (chainSweep h n n s) i = fst (chainSweep h n (Suc i) s) i"
    "snd (chainSweep h n n s) i = snd (chainSweep h n (Suc i) s) i"
    using chainSweep_frozen [of "Suc i" n i] assms by simp_all
  show v: "snd (chainSweep h n n s) i = newVel h n i (chainSweep h n i s)"
    unfolding f by (simp add: chainStep_eq)
  show "snd (chainSweep h n n s) i =
           snd s i + (- potentialGradient n (fst (chainSweep h n i s)) i - DAMPING * snd s i) * h"
    unfolding v by (simp add: newVel_def b)
  show "fst (chainSweep h n n s) i = clampOffset (fst s i + snd (chainSweep h n n s) i * h)"
    unfolding v unfolding f by (simp add: chainStep_eq b)
qed

lemma chainSweep_energy:
  assumes "inRange n (fst s)"
  shows "k \<le> n \<Longrightarrow>
   energyOf n (chainSweep h n k s) +
     (\<Sum>i<k. dissipation h (localStiffness n i) (snd (chainSweep h n n s) i - snd s i) (snd (chainSweep h n n s) i))
   \<le> energyOf n s"
proof (induction k)
  case 0
  then show ?case by simp
next
  case (Suc k)
  then have kn: "k < n" "k \<le> n" by simp_all
  define L where "L = dissipation h (localStiffness n k) (snd (chainSweep h n n s) k - snd s k) (snd (chainSweep h n n s) k)"
  have b: "snd (chainSweep h n k s) k = snd s k"
    using chainSweep_beyond [of k k] by simp
  have v: "newVel h n k (chainSweep h n k s) = snd (chainSweep h n n s) k"
    using chainSweep_column(1) [OF kn(1)] by simp
  have "energyOf n (chainStep h n k (chainSweep h n k s)) +
      dissipation h (localStiffness n k) (newVel h n k (chainSweep h n k s) - snd (chainSweep h n k s) k)
        (newVel h n k (chainSweep h n k s)) \<le> energyOf n (chainSweep h n k s)"
    using kn(1) chainSweep_inRange [OF assms] by (rule chainStep_energy)
  then have "energyOf n (chainSweep h n (Suc k) s) + L \<le> energyOf n (chainSweep h n k s)"
    unfolding v b L_def by simp
  moreover have "(\<Sum>i<Suc k. dissipation h (localStiffness n i) (snd (chainSweep h n n s) i - snd s i) (snd (chainSweep h n n s) i))
      = (\<Sum>i<k. dissipation h (localStiffness n i) (snd (chainSweep h n n s) i - snd s i) (snd (chainSweep h n n s) i)) + L"
    unfolding L_def by simp
  ultimately show ?case
    using Suc.IH [OF kn(2)] by linarith
qed

text \<open>The gradient after the sweep, from the gradient the column saw at its step.\<close>

lemma chainSweep_grad:
  assumes "i < n"
  shows "potentialGradient n (fst (chainSweep h n n s)) i =
     potentialGradient n (fst (chainSweep h n i s)) i + localStiffness n i * (fst (chainSweep h n n s) i - fst s i)
       - TENSION * (if Suc i < n then fst (chainSweep h n n s) (Suc i) - fst s (Suc i) else 0)"
proof -
  have c: "fst (chainSweep h n i s) i = fst s i"
    using chainSweep_beyond [of i i] by simp
  have r: "fst (chainSweep h n i s) (Suc i) = fst s (Suc i)"
    using chainSweep_beyond [of i "Suc i"] by simp
  have l: "0 < i \<Longrightarrow> fst (chainSweep h n n s) (i - 1) = fst (chainSweep h n i s) (i - 1)"
    using chainSweep_frozen [of i n "i - 1"] assms by simp
  show ?thesis
    unfolding potentialGradient_def laplacian_cases [OF assms] localStiffness_def
    using l c r by (cases "0 < i"; cases "Suc i < n") (auto simp: algebra_simps)
qed

lemma sum_shift_left:
  fixes f :: "nat \<Rightarrow> real"
  shows "(\<Sum>i<n. if 0 < i then f i else 0) = (\<Sum>j<n - 1. f (Suc j))"
proof (cases n)
  case 0
  then show ?thesis by simp
next
  case (Suc m)
  have "(\<Sum>i<Suc m. if 0 < i then f i else 0) =
      (if 0 < (0::nat) then f 0 else 0) + (\<Sum>j<m. if 0 < Suc j then f (Suc j) else 0)"
    by (rule sum.lessThan_Suc_shift)
  then show ?thesis
    unfolding Suc by simp
qed

lemma sum_drop_last:
  fixes f :: "nat \<Rightarrow> real"
  shows "(\<Sum>i<n. if Suc i < n then f i else 0) = (\<Sum>j<n - 1. f j)"
proof (cases n)
  case 0
  then show ?thesis by simp
next
  case (Suc m)
  show ?thesis
    unfolding Suc by simp
qed

lemma euler_identity:
  "(\<Sum>i<n. u i * potentialGradient n u i) = 2 * potentialEnergy n u"
proof -
  have pt: "u i * potentialGradient n u i = STIFFNESS * (u i)\<^sup>2
      + TENSION * (if 0 < i then u i * (u i - u (i - 1)) else 0)
      + TENSION * (if Suc i < n then u i * (u i - u (Suc i)) else 0)" if "i < n" for i
    unfolding potentialGradient_def laplacian_cases [OF that] by (simp add: power2_eq_square algebra_simps)
  have "(\<Sum>i<n. u i * potentialGradient n u i) = (\<Sum>i<n. STIFFNESS * (u i)\<^sup>2
      + TENSION * (if 0 < i then u i * (u i - u (i - 1)) else 0)
      + TENSION * (if Suc i < n then u i * (u i - u (Suc i)) else 0))"
    by (rule sum.cong [OF refl]) (simp add: pt)
  also have "\<dots> = STIFFNESS * (\<Sum>i<n. (u i)\<^sup>2)
      + TENSION * (\<Sum>i<n. if 0 < i then u i * (u i - u (i - 1)) else 0)
      + TENSION * (\<Sum>i<n. if Suc i < n then u i * (u i - u (Suc i)) else 0)"
    by (simp only: sum.distrib sum_distrib_left)
  finally have e: "(\<Sum>i<n. u i * potentialGradient n u i) = STIFFNESS * (\<Sum>i<n. (u i)\<^sup>2)
      + TENSION * (\<Sum>i<n. if 0 < i then u i * (u i - u (i - 1)) else 0)
      + TENSION * (\<Sum>i<n. if Suc i < n then u i * (u i - u (Suc i)) else 0)" .
  have a: "(\<Sum>i<n. if 0 < i then u i * (u i - u (i - 1)) else 0) =
      (\<Sum>j<n - 1. u (Suc j) * (u (Suc j) - u j))"
    using sum_shift_left [of "\<lambda>i. u i * (u i - u (i - 1))" n] by simp
  have b: "(\<Sum>i<n. if Suc i < n then u i * (u i - u (Suc i)) else 0) =
      (\<Sum>j<n - 1. u j * (u j - u (Suc j)))"
    by (rule sum_drop_last)
  have "(\<Sum>j<n - 1. u (Suc j) * (u (Suc j) - u j)) + (\<Sum>j<n - 1. u j * (u j - u (Suc j))) =
      (\<Sum>j<n - 1. u (Suc j) * (u (Suc j) - u j) + u j * (u j - u (Suc j)))"
    by (simp only: sum.distrib)
  also have "\<dots> = (\<Sum>j<n - 1. (u (Suc j) - u j)\<^sup>2)"
    by (rule sum.cong [OF refl]) (simp add: power2_eq_square algebra_simps)
  finally have c: "(\<Sum>j<n - 1. u (Suc j) * (u (Suc j) - u j))
      + (\<Sum>j<n - 1. u j * (u j - u (Suc j))) = (\<Sum>j<n - 1. (u (Suc j) - u j)\<^sup>2)" .
  have "(\<Sum>i<n. u i * potentialGradient n u i) = STIFFNESS * (\<Sum>i<n. (u i)\<^sup>2)
      + TENSION * ((\<Sum>j<n - 1. u (Suc j) * (u (Suc j) - u j))
         + (\<Sum>j<n - 1. u j * (u j - u (Suc j))))"
    unfolding e a b by (simp add: algebra_simps)
  then show ?thesis
    unfolding c by (simp add: potentialEnergy_def algebra_simps)
qed

lemma stiffness_part: "STIFFNESS / 2 * (\<Sum>i<n. (u i)\<^sup>2) \<le> potentialEnergy n u"
  by (simp add: potentialEnergy_def TENSION_def sum_nonneg)

lemma potential_le_grad:
  "potentialEnergy n u \<le> (\<Sum>i<n. (potentialGradient n u i)\<^sup>2) / (2 * STIFFNESS)"
proof -
  have young: "u i * potentialGradient n u i \<le> STIFFNESS / 2 * (u i)\<^sup>2 + (potentialGradient n u i)\<^sup>2 / (2 * STIFFNESS)"
    for i
  proof -
    have "0 \<le> (STIFFNESS * u i - potentialGradient n u i)\<^sup>2" by simp
    then show ?thesis
      by (simp add: power2_eq_square STIFFNESS_def algebra_simps)
  qed
  have "2 * potentialEnergy n u = (\<Sum>i<n. u i * potentialGradient n u i)"
    by (simp add: euler_identity)
  also have "\<dots> \<le> (\<Sum>i<n. STIFFNESS / 2 * (u i)\<^sup>2 + (potentialGradient n u i)\<^sup>2 / (2 * STIFFNESS))"
    by (rule sum_mono) (rule young)
  also have "\<dots> = STIFFNESS / 2 * (\<Sum>i<n. (u i)\<^sup>2) + (\<Sum>i<n. (potentialGradient n u i)\<^sup>2) / (2 * STIFFNESS)"
    by (simp only: sum.distrib sum_distrib_left sum_divide_distrib)
  also have "\<dots> \<le> potentialEnergy n u + (\<Sum>i<n. (potentialGradient n u i)\<^sup>2) / (2 * STIFFNESS)"
    using stiffness_part [where n = n and u = u] by simp
  finally show ?thesis by simp
qed

lemma sq_sum3: "(p + q + r)\<^sup>2 \<le> 3 * (p\<^sup>2 + q\<^sup>2 + r\<^sup>2)" for p q r :: real
proof -
  have "0 \<le> (p - q)\<^sup>2 + (q - r)\<^sup>2 + (p - r)\<^sup>2" by simp
  then show ?thesis by (simp add: power2_eq_square algebra_simps)
qed

lemma sum_shift_le:
  fixes f :: "nat \<Rightarrow> real"
  assumes "\<And>i. 0 \<le> f i"
  shows "(\<Sum>i<n. if Suc i < n then f (Suc i) else 0) \<le> (\<Sum>i<n. f i)"
proof (cases n)
  case 0
  then show ?thesis by simp
next
  case (Suc m)
  have "(\<Sum>i<Suc m. if Suc i < Suc m then f (Suc i) else 0) = (\<Sum>i<m. f (Suc i))"
    by simp
  also have "\<dots> \<le> f 0 + (\<Sum>i<m. f (Suc i))"
    using assms [of 0] by simp
  also have "\<dots> = (\<Sum>i<Suc m. f i)"
    by (simp only: sum.lessThan_Suc_shift comp_def)
  finally show ?thesis
    unfolding Suc .
qed

lemma potential_nonneg: "0 \<le> potentialEnergy n u"
  by (simp add: potentialEnergy_def STIFFNESS_def TENSION_def sum_nonneg)

lemma energyOf_nonneg: "0 \<le> energyOf n s"
  by (simp add: energyOf_def kineticEnergy_def potential_nonneg sum_nonneg)

text \<open>The dissipation of a column step for a substep of at most 1/30 s.\<close>

lemma dissipation_lower:
  assumes "0 \<le> h" "h \<le> 1 / 30" "k \<le> 450"
  shows "d\<^sup>2 / 20 + 9 / 2 * (h * V\<^sup>2) \<le> dissipation h k d V"
proof -
  define A where "A = d\<^sup>2"
  define B where "B = h * (d * V)"
  define W where "W = h * V\<^sup>2"
  define X where "X = h * (h * V\<^sup>2)"
  define KX where "KX = k * (h * (h * V\<^sup>2))"
  have w: "0 \<le> W"
    unfolding W_def using assms(1) by simp
  have x0: "0 \<le> X"
    unfolding X_def using assms(1) by simp
  have "h * W \<le> 1 / 30 * W"
    using assms(2) w by (rule mult_right_mono)
  then have x: "X \<le> W / 30"
    unfolding X_def W_def by simp
  have "k * X \<le> 450 * X"
    using assms(3) x0 by (rule mult_right_mono)
  then have kx: "KX \<le> 450 * X"
    unfolding KX_def X_def .
  have "0 \<le> (9 * d - 180 * (h * V))\<^sup>2"
    by simp
  moreover have "(9 * d - 180 * (h * V))\<^sup>2 = 81 * A - 3240 * B + 32400 * X"
    unfolding A_def B_def X_def by (simp add: power2_eq_square algebra_simps)
  ultimately have sq: "0 \<le> 81 * A - 3240 * B + 32400 * X"
    by simp
  have l: "dissipation h k d V = A / 2 - 18 * B + 18 * W - KX / 2"
    unfolding dissipation_def A_def B_def W_def KX_def DAMPING_def
    by (simp add: power2_eq_square algebra_simps)
  have "A / 20 + 9 / 2 * W \<le> A / 2 - 18 * B + 18 * W - KX / 2"
    using sq x kx by argo
  then show ?thesis
    unfolding l unfolding A_def W_def .
qed

lemma sq_le_sq:
  fixes a b :: real
  assumes "\<bar>a\<bar> \<le> b"
  shows "a\<^sup>2 \<le> b\<^sup>2"
proof -
  have "\<bar>a\<bar> \<le> \<bar>b\<bar>" using assms by simp
  then show ?thesis by (simp only: abs_le_square_iff)
qed

lemma final_grad_bound:
  assumes "i < n" "0 \<le> h" "h \<le> 1 / 30" "inRange n (fst s)"
  shows "(h * potentialGradient n (fst (chainSweep h n n s)) i)\<^sup>2 \<le>
     3 * (snd (chainSweep h n n s) i - snd s i)\<^sup>2
     + 3267 * (h\<^sup>2 * (snd (chainSweep h n n s) i)\<^sup>2)
     + 108 * (h\<^sup>2 * (if Suc i < n then (snd (chainSweep h n n s) (Suc i))\<^sup>2 else 0))"
proof -
  define S where "S = chainSweep h n n s"
  define V where "V = snd S i"
  define d where "d = V - snd s i"
  define R where "R = (if Suc i < n then snd S (Suc i) else 0)"
  define G where "G = potentialGradient n (fst (chainSweep h n i s)) i"
  define e where "e = fst S i - fst s i"
  define e' where "e' = (if Suc i < n then fst S (Suc i) - fst s (Suc i) else 0)"
  define k where "k = localStiffness n i"
  define p where "p = (18 * h - 1) * d"
  define c1 where "c1 = h * k"
  define c2 where "c2 = h * TENSION"
  define q where "q = - 18 * (h * V) + c1 * e"
  define r where "r = - (c2 * e')"
  define a where "a = h * \<bar>V\<bar>"
  define b where "b = h * \<bar>R\<bar>"
  have ab: "0 \<le> a" "0 \<le> b"
    unfolding a_def b_def using assms(2) by simp_all
  have v: "V = snd s i + (- G - DAMPING * snd s i) * h"
    unfolding V_def S_def G_def using assms(1) by (rule chainSweep_column(2))
  have "h * G = snd s i - V - 18 * (h * snd s i)"
    unfolding v by (simp add: DAMPING_def algebra_simps)
  then have hg: "h * G = p - 18 * (h * V)"
    unfolding p_def d_def by (simp add: algebra_simps)
  have ri: "offsetInRange (fst s i)"
    using assms(1,4) by (simp add: inRange_def)
  have "fst S i = clampOffset (fst s i + V * h)"
    unfolding S_def V_def using assms(1) by (rule chainSweep_column(3))
  then have "\<bar>e\<bar> \<le> \<bar>V * h\<bar>"
    unfolding e_def using clampOffset_move [OF ri, of "V * h"] by simp
  then have eb: "\<bar>e\<bar> \<le> a"
    unfolding a_def using assms(2) by (simp add: abs_mult mult.commute)
  have eb': "\<bar>e'\<bar> \<le> b"
  proof (cases "Suc i < n")
    case True
    have "offsetInRange (fst s (Suc i))"
      using True assms(4) by (simp add: inRange_def)
    moreover have "fst S (Suc i) = clampOffset (fst s (Suc i) + snd S (Suc i) * h)"
      unfolding S_def using True by (rule chainSweep_column(3))
    ultimately have "\<bar>fst S (Suc i) - fst s (Suc i)\<bar> \<le> \<bar>snd S (Suc i) * h\<bar>"
      using clampOffset_move [of "fst s (Suc i)" "snd S (Suc i) * h"] by simp
    then show ?thesis
      unfolding e'_def b_def R_def using True assms(2) by (simp add: abs_mult mult.commute)
  next
    case False
    then show ?thesis
      unfolding e'_def using ab(2) by simp
  qed
  have kb: "0 \<le> k" "k \<le> 450"
    using localStiffness_bounds [of n i] by (simp_all add: k_def STIFFNESS_def TENSION_def)
  have "h * k \<le> 1 / 30 * 450"
    using assms(2,3) kb by (intro mult_mono) simp_all
  then have hk: "0 \<le> c1" "c1 \<le> 15"
    unfolding c1_def using assms(2) kb(1) by simp_all
  have "h * TENSION \<le> 1 / 30 * 180"
    unfolding TENSION_def using assms(3) by simp
  then have ht: "0 \<le> c2" "c2 \<le> 6"
    unfolding c2_def using assms(2) by (simp_all add: TENSION_def)
  have gf: "potentialGradient n (fst S) i = G + k * e - TENSION * e'"
    unfolding S_def G_def k_def e_def e'_def S_def using assms(1) by (rule chainSweep_grad)
  have "h * potentialGradient n (fst S) i = h * G + c1 * e - c2 * e'"
    unfolding gf c1_def c2_def by (simp add: algebra_simps)
  then have f: "h * potentialGradient n (fst S) i = p + q + r"
    unfolding hg q_def r_def by simp
  have "\<bar>18 * h - 1\<bar> \<le> 1"
    using assms(2,3) by simp
  then have "\<bar>18 * h - 1\<bar> * \<bar>d\<bar> \<le> 1 * \<bar>d\<bar>"
    by (rule mult_right_mono) simp
  then have "\<bar>p\<bar> \<le> \<bar>d\<bar>"
    unfolding p_def by (simp add: abs_mult)
  then have "p\<^sup>2 \<le> \<bar>d\<bar>\<^sup>2"
    by (rule sq_le_sq)
  then have b1: "p\<^sup>2 \<le> d\<^sup>2"
    by simp
  have "\<bar>c1 * e\<bar> = c1 * \<bar>e\<bar>"
    using hk(1) by (simp add: abs_mult)
  also have "\<dots> \<le> 15 * a"
    using hk eb ab(1) by (intro mult_mono) simp_all
  finally have q2: "\<bar>c1 * e\<bar> \<le> 15 * a" .
  have q1: "\<bar>- 18 * (h * V)\<bar> = 18 * a"
    unfolding a_def using assms(2) by (simp add: abs_mult)
  have "\<bar>q\<bar> \<le> \<bar>- 18 * (h * V)\<bar> + \<bar>c1 * e\<bar>"
    unfolding q_def by (rule abs_triangle_ineq)
  then have "\<bar>q\<bar> \<le> 33 * a"
    unfolding q1 using q2 by linarith
  then have "q\<^sup>2 \<le> (33 * a)\<^sup>2"
    by (rule sq_le_sq)
  moreover have "(33 * a)\<^sup>2 = 1089 * (h\<^sup>2 * V\<^sup>2)"
    unfolding a_def by (simp add: power_mult_distrib)
  ultimately have b2: "q\<^sup>2 \<le> 1089 * (h\<^sup>2 * V\<^sup>2)"
    by simp
  have "\<bar>r\<bar> = c2 * \<bar>e'\<bar>"
    unfolding r_def using ht(1) by (simp add: abs_mult)
  also have "\<dots> \<le> 6 * b"
    using ht eb' ab(2) by (intro mult_mono) simp_all
  finally have "\<bar>r\<bar> \<le> 6 * b" .
  then have "r\<^sup>2 \<le> (6 * b)\<^sup>2"
    by (rule sq_le_sq)
  moreover have "(6 * b)\<^sup>2 = 36 * (h\<^sup>2 * R\<^sup>2)"
    unfolding b_def by (simp add: power_mult_distrib)
  ultimately have b3: "r\<^sup>2 \<le> 36 * (h\<^sup>2 * R\<^sup>2)"
    by simp
  have "(p + q + r)\<^sup>2 \<le> 3 * (p\<^sup>2 + q\<^sup>2 + r\<^sup>2)"
    by (rule sq_sum3)
  also have "\<dots> \<le> 3 * (d\<^sup>2 + 1089 * (h\<^sup>2 * V\<^sup>2) + 36 * (h\<^sup>2 * R\<^sup>2))"
    using b1 b2 b3 by simp
  finally have "(h * potentialGradient n (fst S) i)\<^sup>2 \<le>
      3 * d\<^sup>2 + 3267 * (h\<^sup>2 * V\<^sup>2) + 108 * (h\<^sup>2 * R\<^sup>2)"
    unfolding f by simp
  moreover have "R\<^sup>2 = (if Suc i < n then (snd S (Suc i))\<^sup>2 else 0)"
    by (simp add: R_def)
  ultimately show ?thesis
    unfolding d_def V_def S_def by simp
qed

text \<open>One sweep of the columns divides the energy by at least 1 + 3 h h.\<close>

lemma chainSweep_contraction:
  assumes "0 \<le> h" "h \<le> 1 / 30" "inRange n (fst s)"
  shows "(1 + 3 * h\<^sup>2) * energyOf n (chainSweep h n n s) \<le> energyOf n s"
proof -
  define S where "S = chainSweep h n n s"
  define D where "D = (\<Sum>i<n. (snd S i - snd s i)\<^sup>2)"
  define VV where "VV = (\<Sum>i<n. (snd S i)\<^sup>2)"
  define RR where "RR = (\<Sum>i<n. if Suc i < n then (snd S (Suc i))\<^sup>2 else 0)"
  define X where "X = h\<^sup>2 * VV"
  define Y where "Y = h\<^sup>2 * RR"
  define W where "W = h * VV"
  define U where "U = potentialEnergy n (fst S)"
  define HU where "HU = h\<^sup>2 * U"
  define L where "L = (\<Sum>i<n. dissipation h (localStiffness n i) (snd S i - snd s i) (snd S i))"
  have rr: "RR \<le> VV"
    unfolding RR_def VV_def by (rule sum_shift_le) simp
  have nn: "0 \<le> D" "0 \<le> VV" "0 \<le> RR"
    unfolding D_def VV_def RR_def by (simp_all add: sum_nonneg)
  have w: "0 \<le> W"
    unfolding W_def using assms(1) nn(2) by simp
  have "h * W \<le> 1 / 30 * W"
    using assms(2) w by (rule mult_right_mono)
  then have x: "X \<le> W / 30"
    unfolding X_def W_def by (simp add: power2_eq_square)
  have "h\<^sup>2 * RR \<le> h\<^sup>2 * VV"
    using rr by (rule mult_left_mono) simp
  then have yx: "Y \<le> X"
    unfolding Y_def X_def .
  have "(\<Sum>i<n. (h * potentialGradient n (fst S) i)\<^sup>2) \<le>
      (\<Sum>i<n. 3 * (snd S i - snd s i)\<^sup>2 + 3267 * (h\<^sup>2 * (snd S i)\<^sup>2)
        + 108 * (h\<^sup>2 * (if Suc i < n then (snd S (Suc i))\<^sup>2 else 0)))"
  proof (rule sum_mono)
    fix i
    assume "i \<in> {..<n}"
    then have "i < n" by simp
    then show "(h * potentialGradient n (fst S) i)\<^sup>2 \<le>
        3 * (snd S i - snd s i)\<^sup>2 + 3267 * (h\<^sup>2 * (snd S i)\<^sup>2)
        + 108 * (h\<^sup>2 * (if Suc i < n then (snd S (Suc i))\<^sup>2 else 0))"
      unfolding S_def using assms by (rule final_grad_bound)
  qed
  also have "\<dots> = 3 * D + 3267 * X + 108 * Y"
    unfolding D_def VV_def RR_def X_def Y_def by (simp only: sum.distrib sum_distrib_left)
  finally have gb: "(\<Sum>i<n. (h * potentialGradient n (fst S) i)\<^sup>2) \<le> 3 * D + 3267 * X + 108 * Y" .
  have "U \<le> (\<Sum>i<n. (potentialGradient n (fst S) i)\<^sup>2) / (2 * STIFFNESS)"
    unfolding U_def by (rule potential_le_grad)
  then have "h\<^sup>2 * U \<le> h\<^sup>2 * ((\<Sum>i<n. (potentialGradient n (fst S) i)\<^sup>2) / (2 * STIFFNESS))"
    by (rule mult_left_mono) simp
  also have "\<dots> = (\<Sum>i<n. (h * potentialGradient n (fst S) i)\<^sup>2) / 180"
    by (simp add: STIFFNESS_def power_mult_distrib sum_distrib_left)
  finally have hu: "HU \<le> (\<Sum>i<n. (h * potentialGradient n (fst S) i)\<^sup>2) / 180"
    unfolding HU_def .
  have ke: "kineticEnergy n (snd S) = VV / 2"
    by (simp add: kineticEnergy_def VV_def)
  have es: "3 * h\<^sup>2 * energyOf n S = 3 / 2 * X + 3 * HU"
    unfolding energyOf_def ke X_def HU_def U_def by (simp add: algebra_simps)
  have "(\<Sum>i<n. (snd S i - snd s i)\<^sup>2 / 20 + 9 / 2 * (h * (snd S i)\<^sup>2)) \<le> L"
    unfolding L_def
  proof (rule sum_mono)
    fix i
    have "localStiffness n i \<le> 450"
      using localStiffness_bounds [of n i] by (simp add: STIFFNESS_def TENSION_def)
    then show "(snd S i - snd s i)\<^sup>2 / 20 + 9 / 2 * (h * (snd S i)\<^sup>2) \<le>
        dissipation h (localStiffness n i) (snd S i - snd s i) (snd S i)"
      using assms(1,2) by (intro dissipation_lower)
  qed
  moreover have "(\<Sum>i<n. (snd S i - snd s i)\<^sup>2 / 20 + 9 / 2 * (h * (snd S i)\<^sup>2)) = D / 20 + 9 / 2 * W"
    unfolding D_def VV_def W_def
    by (simp add: sum.distrib sum_divide_distrib [symmetric] sum_distrib_left [symmetric])
  ultimately have lb: "D / 20 + 9 / 2 * W \<le> L"
    by simp
  have en: "energyOf n S + L \<le> energyOf n s"
    unfolding S_def L_def S_def using chainSweep_energy [OF assms(3), of n h] by simp
  have "3 / 2 * X + 3 * HU \<le> L"
    using hu gb x yx lb nn(1) w by argo
  then have "energyOf n S + 3 * h\<^sup>2 * energyOf n S \<le> energyOf n s"
    unfolding es using en by linarith
  then show ?thesis
    unfolding S_def by (simp add: algebra_simps)
qed

lemma laplacian_cong:
  assumes "i < n" "\<forall>j<n. u j = u' j"
  shows "laplacian n u i = laplacian n u' i"
proof -
  have "i - 1 < n" using assms(1) by simp
  then show ?thesis
    unfolding laplacian_cases [OF assms(1)] using assms by simp
qed

lemma energyOf_cong:
  assumes "agree n s t"
  shows "energyOf n s = energyOf n t"
proof -
  have k: "(\<Sum>i<n. (snd s i)\<^sup>2) = (\<Sum>i<n. (snd t i)\<^sup>2)"
    by (rule sum.cong) (use assms in \<open>simp_all add: agree_def\<close>)
  have p: "(\<Sum>i<n. (fst s i)\<^sup>2) = (\<Sum>i<n. (fst t i)\<^sup>2)"
    by (rule sum.cong) (use assms in \<open>simp_all add: agree_def\<close>)
  have q: "(\<Sum>i<n - 1. (fst s (Suc i) - fst s i)\<^sup>2) = (\<Sum>i<n - 1. (fst t (Suc i) - fst t i)\<^sup>2)"
  proof (rule sum.cong [OF refl])
    fix i
    assume "i \<in> {..<n - 1}"
    then have "i < n" "Suc i < n" by auto
    then show "(fst s (Suc i) - fst s i)\<^sup>2 = (fst t (Suc i) - fst t i)\<^sup>2"
      using assms by (simp add: agree_def)
  qed
  show ?thesis
    unfolding energyOf_def kineticEnergy_def potentialEnergy_def k p q ..
qed

lemma offset_le_energy:
  assumes "j < n"
  shows "STIFFNESS / 2 * (fst s j)\<^sup>2 \<le> energyOf n s"
proof -
  have "(fst s j)\<^sup>2 \<le> (\<Sum>i<n. (fst s i)\<^sup>2)"
    using assms by (intro member_le_sum) simp_all
  then have "STIFFNESS / 2 * (fst s j)\<^sup>2 \<le> STIFFNESS / 2 * (\<Sum>i<n. (fst s i)\<^sup>2)"
    by (intro mult_left_mono) (simp_all add: STIFFNESS_def)
  also have "\<dots> \<le> potentialEnergy n (fst s)"
    by (rule stiffness_part)
  also have "\<dots> \<le> energyOf n s"
    by (simp add: energyOf_def kineticEnergy_def sum_nonneg)
  finally show ?thesis .
qed

text \<open>The code's column step and the chain's agree.\<close>

lemma columnStep_abs:
  assumes "wellFormed g" "i < BLOCKS_PER_ROW g" "force g ! i = 0"
    "agree (BLOCKS_PER_ROW g) (columnsOf g) s"
  shows "agree (BLOCKS_PER_ROW g) (columnsOf (columnStep h g i)) (chainStep h (BLOCKS_PER_ROW g) i s)"
proof -
  let ?n = "BLOCKS_PER_ROW g"
  have len: "length (yOffset g) = ?n" "length (yVel g) = ?n"
    using assms(1) by (simp_all add: wellFormed_def)
  have ci: "yOffset g ! i = fst s i" "yVel g ! i = snd s i"
    using assms(2,4) by (simp_all add: agree_def columnsOf_def)
  have "\<forall>j<?n. (\<lambda>k. yOffset g ! k) j = fst s j"
    using assms(4) by (simp add: agree_def columnsOf_def)
  then have l: "laplacian ?n (\<lambda>k. yOffset g ! k) i = laplacian ?n (fst s) i"
    using assms(2) by (intro laplacian_cong) simp_all
  have l': "yOffset g ! nat (max 0 (int i - 1)) - 2 * fst s i
      + yOffset g ! nat (min (int ?n - 1) (int i + 1)) = laplacian ?n (fst s) i"
    using l by (simp add: laplacian_def ci)
  define a where "a = TENSION * laplacian ?n (fst s) i - STIFFNESS * fst s i - DAMPING * snd s i"
  define w' where "w' = snd s i + a * h"
  define u' where "u' = clampOffset (fst s i + w' * h)"
  have st: "chainStep h ?n i s = ((fst s)(i := u'), (snd s)(i := w'))"
    by (simp add: chainStep_def Let_def a_def w'_def u'_def)
  have cs: "columnStep h g i = g\<lparr>yVel := (yVel g)[i := w'], yOffset := (yOffset g)[i := u']\<rparr>"
    unfolding columnStep_def Let_def ci assms(3) l'
    by (simp add: a_def w'_def u'_def clampOffset_def)
  show ?thesis
    unfolding cs st agree_def columnsOf_def
    using assms(4) len by (auto simp: agree_def columnsOf_def nth_list_update)
qed

lemma sweep_abs:
  assumes "wellFormed g" "unforced g" "k \<le> BLOCKS_PER_ROW g"
  shows "agree (BLOCKS_PER_ROW g) (columnsOf (foldl (columnStep h) g [0..<k]))
           (chainSweep h (BLOCKS_PER_ROW g) k (columnsOf g))"
  using assms(3)
proof (induction k)
  case 0
  then show ?case by (simp add: agree_def)
next
  case (Suc k)
  let ?n = "BLOCKS_PER_ROW g"
  let ?g = "foldl (columnStep h) g [0..<k]"
  let ?s = "chainSweep h ?n k (columnsOf g)"
  have kn: "k < ?n" "k \<le> ?n"
    using Suc.prems by simp_all
  have len: "length (yOffset g) = ?n" "length (yVel g) = ?n" "length (force g) = ?n"
    using assms(1) by (simp_all add: wellFormed_def)
  have shape: "BLOCKS_PER_ROW ?g = ?n" "length (yOffset ?g) = ?n" "length (yVel ?g) = ?n"
    "force ?g = force g"
    using sweep_prefix [of k g h] kn len by simp_all
  have wf: "wellFormed ?g"
    using shape len by (simp add: wellFormed_def)
  have f0: "force ?g ! k = 0"
    using assms(2) kn shape by (simp add: unforced_def)
  have ag: "agree (BLOCKS_PER_ROW ?g) (columnsOf ?g) ?s"
    using Suc.IH [OF kn(2)] shape by simp
  have "agree (BLOCKS_PER_ROW ?g) (columnsOf (columnStep h ?g k)) (chainStep h (BLOCKS_PER_ROW ?g) k ?s)"
    using wf _ f0 ag by (rule columnStep_abs) (simp add: shape kn)
  then show ?case
    using shape by simp
qed

lemma subStep_abs:
  assumes "wellFormed g" "unforced g"
  shows "wellFormed (subStep h g)" "unforced (subStep h g)"
    "BLOCKS_PER_ROW (subStep h g) = BLOCKS_PER_ROW g"
    "agree (BLOCKS_PER_ROW g) (columnsOf (subStep h g))
       (chainSweep h (BLOCKS_PER_ROW g) (BLOCKS_PER_ROW g) (columnsOf g))"
proof -
  let ?n = "BLOCKS_PER_ROW g"
  have len: "length (yOffset g) = ?n" "length (yVel g) = ?n" "length (force g) = ?n"
    using assms(1) by (simp_all add: wellFormed_def)
  have shape: "BLOCKS_PER_ROW (subStep h g) = ?n"
    "length (yOffset (subStep h g)) = ?n" "length (yVel (subStep h g)) = ?n"
    "force (subStep h g) = force g"
    using sweep_prefix [of ?n g h] len by (simp_all add: subStep_def)
  show "wellFormed (subStep h g)" "unforced (subStep h g)" "BLOCKS_PER_ROW (subStep h g) = ?n"
    using shape len assms(2) by (simp_all add: wellFormed_def unforced_def)
  show "agree ?n (columnsOf (subStep h g)) (chainSweep h ?n ?n (columnsOf g))"
    using sweep_abs [OF assms, of ?n h] by (simp add: subStep_def)
qed

lemma inRange_abs: "groundInvariant g \<Longrightarrow> inRange (BLOCKS_PER_ROW g) (fst (columnsOf g))"
  by (simp add: groundInvariant_def inRange_def columnsOf_def)

lemma springEnergy_nonneg: "0 \<le> springEnergy g"
  by (simp add: springEnergy_def energyOf_nonneg)

lemma subStep_decay:
  assumes "groundInvariant g" "unforced g" "0 \<le> h" "h \<le> 1 / 30"
  shows "groundInvariant (subStep h g)" "unforced (subStep h g)"
    "BLOCKS_PER_ROW (subStep h g) = BLOCKS_PER_ROW g"
    "(1 + 3 * h\<^sup>2) * springEnergy (subStep h g) \<le> springEnergy g"
proof -
  let ?n = "BLOCKS_PER_ROW g"
  have wf: "wellFormed g"
    using assms(1) by (simp add: groundInvariant_def)
  note a = subStep_abs [OF wf assms(2), of h]
  show "groundInvariant (subStep h g)"
    using wf by (rule subStep_invariant)
  show "unforced (subStep h g)" "BLOCKS_PER_ROW (subStep h g) = ?n"
    by (rule a(2), rule a(3))
  have "springEnergy (subStep h g) = energyOf ?n (chainSweep h ?n ?n (columnsOf g))"
    unfolding springEnergy_def a(3) using a(4) by (rule energyOf_cong)
  then show "(1 + 3 * h\<^sup>2) * springEnergy (subStep h g) \<le> springEnergy g"
    unfolding springEnergy_def [of g]
    using chainSweep_contraction [OF assms(3,4) inRange_abs [OF assms(1)]] by simp
qed

lemma computeForce_rest:
  assumes "groundInvariant g"
  shows "groundInvariant (computeForce g 0 px)" "unforced (computeForce g 0 px)"
    "BLOCKS_PER_ROW (computeForce g 0 px) = BLOCKS_PER_ROW g"
    "springEnergy (computeForce g 0 px) = springEnergy g"
    "yOffset (computeForce g 0 px) = yOffset g" "yVel (computeForce g 0 px) = yVel g"
  using assms
  by (simp_all add: groundInvariant_def wellFormed_def unforced_def computeForce_def
      columnForce_def springEnergy_def columnsOf_def)

lemma render_rest: "render dt 0 px g = subStep (dt / 2) (subStep (dt / 2) (computeForce g 0 px))"
  by (simp add: render_def Let_def)

text \<open>Without pressure the position of the player does not matter.\<close>

lemma columnForce_rest: "columnForce g 0 c = (\<lambda>i. 0)"
  by (rule ext) (simp add: columnForce_def)

lemma render_any_player: "render dt 0 px g = render dt 0 px' g"
  by (simp add: render_def Let_def computeForce_def columnForce_rest)

lemma render_decay:
  assumes "groundInvariant g" "0 \<le> dt" "dt \<le> 1 / 15"
  shows "groundInvariant (render dt 0 px g)"
    "BLOCKS_PER_ROW (render dt 0 px g) = BLOCKS_PER_ROW g"
    "(1 + 3 * (dt / 2)\<^sup>2)\<^sup>2 * springEnergy (render dt 0 px g) \<le> springEnergy g"
proof -
  let ?g0 = "computeForce g 0 px"
  let ?g1 = "subStep (dt / 2) ?g0"
  let ?g2 = "subStep (dt / 2) ?g1"
  define c where "c = 1 + 3 * (dt / 2)\<^sup>2"
  have h: "0 \<le> dt / 2" "dt / 2 \<le> 1 / 30"
    using assms(2,3) by simp_all
  have c1: "0 \<le> c"
    unfolding c_def by simp
  note c0 = computeForce_rest [OF assms(1), of px]
  note s1 = subStep_decay [OF c0(1,2) h]
  note s2 = subStep_decay [OF s1(1,2) h]
  show "groundInvariant (render dt 0 px g)"
    unfolding render_rest by (rule s2(1))
  show "BLOCKS_PER_ROW (render dt 0 px g) = BLOCKS_PER_ROW g"
    unfolding render_rest s2(3) s1(3) by (rule c0(3))
  have e1: "c * springEnergy ?g1 \<le> springEnergy g"
    using s1(4) unfolding c0(4) c_def .
  have "c * (c * springEnergy ?g2) \<le> c * springEnergy ?g1"
    using s2(4) c1 unfolding c_def [symmetric] by (rule mult_left_mono)
  then have "c\<^sup>2 * springEnergy ?g2 \<le> springEnergy g"
    using e1 by (simp add: power2_eq_square algebra_simps)
  then show "(1 + 3 * (dt / 2)\<^sup>2)\<^sup>2 * springEnergy (render dt 0 px g) \<le> springEnergy g"
    unfolding render_rest c_def .
qed

lemma relax_Suc: "relax dt px (Suc m) g = render dt 0 px (relax dt px m g)"
  by (simp add: relax_def)

lemma relax_decay:
  assumes "groundInvariant g" "0 \<le> dt" "dt \<le> 1 / 15"
  shows "groundInvariant (relax dt px m g) \<and>
         BLOCKS_PER_ROW (relax dt px m g) = BLOCKS_PER_ROW g \<and>
         (1 + 3 * (dt / 2)\<^sup>2) ^ (2 * m) * springEnergy (relax dt px m g) \<le> springEnergy g"
proof (induction m)
  case 0
  then show ?case using assms(1) by (simp add: relax_def)
next
  case (Suc m)
  let ?g = "relax dt px m g"
  define c where "c = 1 + 3 * (dt / 2)\<^sup>2"
  have ih: "groundInvariant ?g" "BLOCKS_PER_ROW ?g = BLOCKS_PER_ROW g"
    "c ^ (2 * m) * springEnergy ?g \<le> springEnergy g"
    using Suc unfolding c_def by simp_all
  note r = render_decay [OF ih(1) assms(2,3), of px]
  have "0 \<le> c ^ (2 * m)"
    unfolding c_def by simp
  then have "c ^ (2 * m) * (c\<^sup>2 * springEnergy (render dt 0 px ?g)) \<le> c ^ (2 * m) * springEnergy ?g"
    using r(3) unfolding c_def [symmetric] by (intro mult_left_mono)
  then have "c ^ (2 * Suc m) * springEnergy (render dt 0 px ?g) \<le> springEnergy g"
    using ih(3) by (simp add: power_add power2_eq_square algebra_simps)
  then show ?case
    unfolding relax_Suc c_def using r(1,2) ih(2) by simp
qed

lemma relax_mono:
  assumes "groundInvariant g" "0 \<le> dt" "dt \<le> 1 / 15"
  shows "springEnergy (relax dt px (Suc m) g) \<le> springEnergy (relax dt px m g)"
proof -
  let ?g = "relax dt px m g"
  define c where "c = (1 + 3 * (dt / 2)\<^sup>2)\<^sup>2"
  define E where "E = springEnergy (render dt 0 px ?g)"
  have gi: "groundInvariant ?g"
    using relax_decay [OF assms, of px m] by simp
  have "1 \<le> 1 + 3 * (dt / 2)\<^sup>2"
    by simp
  then have "1\<^sup>2 \<le> (1 + 3 * (dt / 2)\<^sup>2)\<^sup>2"
    by (rule power_mono) simp
  then have c: "1 \<le> c"
    unfolding c_def by simp
  have e: "0 \<le> E"
    unfolding E_def by (rule springEnergy_nonneg)
  have "1 * E \<le> c * E"
    using c e by (rule mult_right_mono)
  moreover have "c * E \<le> springEnergy ?g"
    unfolding c_def E_def using gi assms(2,3) by (rule render_decay(3))
  ultimately show ?thesis
    unfolding relax_Suc E_def by simp
qed

text \<open>After N sweeps with 1 \<le> 3 h h N the energy has halved.\<close>

lemma gain_doubles:
  fixes x :: real
  assumes "0 \<le> x" "1 \<le> x * real N"
  shows "2 ^ k \<le> (1 + x) ^ (k * N)"
proof -
  have "1 + real N * x \<le> (1 + x) ^ N"
    by (rule Bernoulli_inequality) (use assms(1) in simp)
  then have "2 \<le> (1 + x) ^ N"
    using assms(2) by (simp add: mult.commute)
  then have "2 ^ k \<le> ((1 + x) ^ N) ^ k"
    by (intro power_mono) simp_all
  then show ?thesis
    by (simp add: power_mult mult.commute)
qed

lemma relax_settled:
  assumes "groundInvariant g" "0 \<le> dt" "dt \<le> 1 / 15"
    and "1 \<le> 3 * (dt / 2)\<^sup>2 * real N" "springEnergy g \<le> 45 / 4 * 2 ^ k" "k * N \<le> 2 * m"
    and "i < BLOCKS_PER_ROW g"
  shows "\<bar>yOffset (relax dt px m g) ! i\<bar> \<le> 1 / 2"
proof -
  let ?g = "relax dt px m g"
  define c where "c = 1 + 3 * (dt / 2)\<^sup>2"
  define P where "P = c ^ (2 * m)"
  define E where "E = springEnergy ?g"
  have c1: "1 \<le> c"
    unfolding c_def by simp
  have d: "BLOCKS_PER_ROW ?g = BLOCKS_PER_ROW g" "P * E \<le> springEnergy g"
    unfolding P_def E_def c_def using relax_decay [OF assms(1,2,3), of px m] by simp_all
  have "2 ^ k \<le> c ^ (k * N)"
    unfolding c_def using assms(4) by (intro gain_doubles) simp_all
  also have "\<dots> \<le> c ^ (2 * m)"
    using c1 assms(6) by (rule power_increasing [rotated])
  finally have p: "2 ^ k \<le> P"
    unfolding P_def .
  have p0: "0 < P"
    using p by (rule less_le_trans [rotated]) simp
  have "P * E \<le> 45 / 4 * 2 ^ k"
    using d(2) assms(5) by simp
  also have "\<dots> \<le> 45 / 4 * P"
    using p by simp
  finally have "P * E \<le> P * (45 / 4)"
    by (simp add: mult.commute)
  then have e: "E \<le> 45 / 4"
    using p0 by simp
  have "STIFFNESS / 2 * (fst (columnsOf ?g) i)\<^sup>2 \<le> energyOf (BLOCKS_PER_ROW ?g) (columnsOf ?g)"
    using assms(7) d(1) by (intro offset_le_energy) simp
  then have "STIFFNESS / 2 * (yOffset ?g ! i)\<^sup>2 \<le> 45 / 4"
    using e unfolding E_def by (simp add: springEnergy_def columnsOf_def)
  then have "(yOffset ?g ! i)\<^sup>2 \<le> (1 / 2)\<^sup>2"
    by (simp add: STIFFNESS_def power2_eq_square)
  then have "\<bar>yOffset ?g ! i\<bar> \<le> \<bar>1 / 2 :: real\<bar>"
    by (simp only: abs_le_square_iff)
  then show ?thesis by simp
qed

text \<open>
  Long ticks. With a substep of 1/8 s a column at its greatest depth that is not rising is
  thrown to its greatest height within one substep, and back down within the next.
\<close>

lemma newVel_down:
  assumes "i < n" "inRange n (fst t)" "heldDown t i"
  shows "newVel (1 / 8) n i t \<le> - 675"
proof -
  define k where "k = localStiffness n i"
  define N where "N = TENSION * nbrSum n (fst t) i"
  have g: "potentialGradient n (fst t) i = k * 60 - N"
    unfolding k_def N_def using assms(3) grad_split [OF assms(1), of "fst t"]
    by (simp add: heldDown_def)
  have "N \<le> 60 * (k - 90)"
    using nbrSum_bounds(2) [OF assms(1,2)] by (simp add: k_def N_def STIFFNESS_def)
  then have "5400 \<le> potentialGradient n (fst t) i"
    unfolding g by simp
  moreover have "0 \<le> snd t i"
    using assms(3) by (simp add: heldDown_def)
  ultimately show ?thesis
    unfolding newVel_def DAMPING_def by argo
qed

lemma newVel_up:
  assumes "i < n" "inRange n (fst t)" "thrownUp t i"
  shows "702 \<le> newVel (1 / 8) n i t"
proof -
  define k where "k = localStiffness n i"
  define N where "N = TENSION * nbrSum n (fst t) i"
  have g: "potentialGradient n (fst t) i = k * (- 18) - N"
    unfolding k_def N_def using assms(3) grad_split [OF assms(1), of "fst t"]
    by (simp add: thrownUp_def)
  have "- 18 * (k - 90) \<le> N"
    using nbrSum_bounds(1) [OF assms(1,2)] by (simp add: k_def N_def STIFFNESS_def)
  then have "potentialGradient n (fst t) i \<le> - 1620"
    unfolding g by simp
  moreover have "snd t i \<le> - 400"
    using assms(3) by (simp add: thrownUp_def)
  ultimately show ?thesis
    unfolding newVel_def DAMPING_def by argo
qed

lemma chainSweep_flips:
  assumes "i < n" "inRange n (fst s)"
  shows "heldDown s i \<Longrightarrow> thrownUp (chainSweep (1 / 8) n n s) i"
    and "thrownUp s i \<Longrightarrow> heldDown (chainSweep (1 / 8) n n s) i"
proof -
  let ?t = "chainSweep (1 / 8) n i s"
  let ?S = "chainSweep (1 / 8) n n s"
  have b: "fst ?t i = fst s i" "snd ?t i = snd s i"
    using chainSweep_beyond [of i i] by simp_all
  have r: "inRange n (fst ?t)"
    using assms(2) by (rule chainSweep_inRange)
  have v: "snd ?S i = newVel (1 / 8) n i ?t"
    using assms(1) by (rule chainSweep_column(1))
  have u: "fst ?S i = clampOffset (fst s i + snd ?S i * (1 / 8))"
    using assms(1) by (rule chainSweep_column(3))
  show "thrownUp ?S i" if "heldDown s i"
  proof -
    have "heldDown ?t i"
      using that by (simp add: heldDown_def b)
    then have "snd ?S i \<le> - 675"
      unfolding v using assms(1) r by (intro newVel_down)
    moreover have "fst s i = 60"
      using that by (simp add: heldDown_def)
    ultimately show ?thesis
      unfolding thrownUp_def u
      using clampOffset_cases [of "60 + snd ?S i * (1 / 8)"] by auto
  qed
  show "heldDown ?S i" if "thrownUp s i"
  proof -
    have "thrownUp ?t i"
      using that by (simp add: thrownUp_def b)
    then have "702 \<le> snd ?S i"
      unfolding v using assms(1) r by (intro newVel_up)
    moreover have "fst s i = - 18"
      using that by (simp add: thrownUp_def)
    ultimately show ?thesis
      unfolding heldDown_def u
      using clampOffset_cases [of "- 18 + snd ?S i * (1 / 8)"] by auto
  qed
qed

lemma agree_column:
  assumes "agree n s t" "i < n"
  shows "heldDown s i = heldDown t i" "thrownUp s i = thrownUp t i"
  using assms by (simp_all add: agree_def heldDown_def thrownUp_def)

lemma subStep_flips:
  assumes "groundInvariant g" "unforced g" "i < BLOCKS_PER_ROW g"
  shows "heldDown (columnsOf g) i \<Longrightarrow> thrownUp (columnsOf (subStep (1 / 8) g)) i"
    and "thrownUp (columnsOf g) i \<Longrightarrow> heldDown (columnsOf (subStep (1 / 8) g)) i"
proof -
  let ?n = "BLOCKS_PER_ROW g"
  have wf: "wellFormed g"
    using assms(1) by (simp add: groundInvariant_def)
  note a = subStep_abs(4) [OF wf assms(2), of "1 / 8"]
  note f = chainSweep_flips [OF assms(3) inRange_abs [OF assms(1)]]
  show "thrownUp (columnsOf (subStep (1 / 8) g)) i" if "heldDown (columnsOf g) i"
    unfolding agree_column(2) [OF a assms(3)] using that by (rule f(1))
  show "heldDown (columnsOf (subStep (1 / 8) g)) i" if "thrownUp (columnsOf g) i"
    unfolding agree_column(1) [OF a assms(3)] using that by (rule f(2))
qed

lemma render_held:
  assumes "groundInvariant g" "i < BLOCKS_PER_ROW g" "heldDown (columnsOf g) i"
  shows "groundInvariant (render (1 / 4) 0 px g)"
    "BLOCKS_PER_ROW (render (1 / 4) 0 px g) = BLOCKS_PER_ROW g"
    "heldDown (columnsOf (render (1 / 4) 0 px g)) i"
proof -
  let ?g0 = "computeForce g 0 px"
  let ?g1 = "subStep (1 / 8) ?g0"
  have r: "render (1 / 4) 0 px g = subStep (1 / 8) ?g1"
    unfolding render_rest by simp
  note c0 = computeForce_rest [OF assms(1), of px]
  have wf0: "wellFormed ?g0"
    using c0(1) by (simp add: groundInvariant_def)
  note a1 = subStep_abs [OF wf0 c0(2), of "1 / 8"]
  have g1: "groundInvariant ?g1"
    using wf0 by (rule subStep_invariant)
  note a2 = subStep_abs [OF a1(1,2), of "1 / 8"]
  have i0: "i < BLOCKS_PER_ROW ?g0"
    unfolding c0(3) by (rule assms(2))
  have i1: "i < BLOCKS_PER_ROW ?g1"
    unfolding a1(3) by (rule i0)
  have "heldDown (columnsOf ?g0) i"
    using assms(3) by (simp add: heldDown_def columnsOf_def c0(5,6))
  then have "thrownUp (columnsOf ?g1) i"
    by (rule subStep_flips(1) [OF c0(1,2) i0])
  then show "heldDown (columnsOf (render (1 / 4) 0 px g)) i"
    unfolding r by (rule subStep_flips(2) [OF g1 a1(2) i1])
  show "groundInvariant (render (1 / 4) 0 px g)"
    unfolding r using a1(1) by (rule subStep_invariant)
  show "BLOCKS_PER_ROW (render (1 / 4) 0 px g) = BLOCKS_PER_ROW g"
    unfolding r a2(3) a1(3) by (rule c0(3))
qed

lemma relax_held:
  assumes "groundInvariant g" "i < BLOCKS_PER_ROW g" "heldDown (columnsOf g) i"
  shows "groundInvariant (relax (1 / 4) px m g) \<and>
         BLOCKS_PER_ROW (relax (1 / 4) px m g) = BLOCKS_PER_ROW g \<and>
         heldDown (columnsOf (relax (1 / 4) px m g)) i"
proof (induction m)
  case 0
  then show ?case using assms by (simp add: relax_def)
next
  case (Suc m)
  let ?g = "relax (1 / 4) px m g"
  have ih: "groundInvariant ?g" "BLOCKS_PER_ROW ?g = BLOCKS_PER_ROW g" "heldDown (columnsOf ?g) i"
    using Suc by simp_all
  have i: "i < BLOCKS_PER_ROW ?g"
    unfolding ih(2) by (rule assms(2))
  show ?case
    unfolding relax_Suc using render_held [OF ih(1) i ih(3), of px] ih(2) by simp
qed

lemma pressedGround_facts:
  "groundInvariant pressedGround" "BLOCKS_PER_ROW pressedGround = 5"
  "heldDown (columnsOf pressedGround) 2" "springEnergy pressedGround = 810000"
proof -
  show "BLOCKS_PER_ROW pressedGround = 5"
    by (simp add: pressedGround_def)
  show "heldDown (columnsOf pressedGround) 2"
    by (simp add: heldDown_def columnsOf_def pressedGround_def)
  have "i < 5 \<Longrightarrow> offsetInRange ([0, 0, 60, 0, 0] ! i)" for i :: nat
    by (auto simp: less_Suc_eq numeral_eq_Suc offsetInRange_def MAX_OFFSET_def)
  then show "groundInvariant pressedGround"
    by (simp add: groundInvariant_def wellFormed_def pressedGround_def)
  show "springEnergy pressedGround = 810000"
    by (simp add: springEnergy_def energyOf_def kineticEnergy_def potentialEnergy_def
        columnsOf_def pressedGround_def lessThan_Suc numeral_eq_Suc STIFFNESS_def TENSION_def)
qed

lemma render_shape:
  assumes "wellFormed g"
  shows "BLOCKS_PER_ROW (render dt depth px g) = BLOCKS_PER_ROW g"
proof -
  let ?g0 = "computeForce g depth px"
  have w0: "wellFormed ?g0"
    using assms by (rule computeForce_wellFormed)
  have n0: "BLOCKS_PER_ROW ?g0 = BLOCKS_PER_ROW g"
    by (simp add: computeForce_def)
  have s1: "wellFormed (subStep (dt / 2) ?g0)"
    "BLOCKS_PER_ROW (subStep (dt / 2) ?g0) = BLOCKS_PER_ROW ?g0"
    using sweep_prefix [of "BLOCKS_PER_ROW ?g0" ?g0 "dt / 2"] w0
    by (simp_all add: wellFormed_def subStep_def)
  have s2: "BLOCKS_PER_ROW (subStep (dt / 2) (subStep (dt / 2) ?g0)) =
      BLOCKS_PER_ROW (subStep (dt / 2) ?g0)"
    using sweep_prefix [of "BLOCKS_PER_ROW (subStep (dt / 2) ?g0)" "subStep (dt / 2) ?g0" "dt / 2"] s1(1)
    by (simp add: wellFormed_def subStep_def)
  show ?thesis
    unfolding render_def Let_def using s2 s1(2) n0 by simp
qed

lemma relax_comes_to_rest:
  assumes "groundInvariant g" "dt \<le> 1 / 15" "0 < dt"
  shows "\<exists>M. \<forall>n \<ge> M. \<forall>i < BLOCKS_PER_ROW g. \<bar>yOffset (relax dt px n g) ! i\<bar> \<le> 1 / 2"
proof -
  define x where "x = 3 * (dt / 2)\<^sup>2"
  have x0: "0 < x"
    unfolding x_def using assms(3) by simp
  obtain N :: nat where "1 / x < real N"
    using reals_Archimedean2 by blast
  then have "1 < x * real N"
    using x0 by (simp add: field_simps)
  then have n: "1 \<le> 3 * (dt / 2)\<^sup>2 * real N"
    unfolding x_def by simp
  obtain k :: nat where "springEnergy g * (4 / 45) < 2 ^ k"
    using real_arch_pow [of 2 "springEnergy g * (4 / 45)"] by auto
  then have k: "springEnergy g \<le> 45 / 4 * 2 ^ k"
    by simp
  have "\<bar>yOffset (relax dt px n g) ! i\<bar> \<le> 1 / 2" if "k * N \<le> n" "i < BLOCKS_PER_ROW g" for n i
  proof -
    have kn: "k * N \<le> 2 * n"
      using that(1) by simp
    have d0: "0 \<le> dt"
      using assms(3) by simp
    show ?thesis
      using assms(1) d0 assms(2) n k kn that(2) by (rule relax_settled)
  qed
  then show ?thesis
    by blast
qed

lemma render_thrown:
  assumes "groundInvariant g" "i < BLOCKS_PER_ROW g" "thrownUp (columnsOf g) i"
  shows "groundInvariant (render (1 / 4) 0 px g)"
    "BLOCKS_PER_ROW (render (1 / 4) 0 px g) = BLOCKS_PER_ROW g"
    "thrownUp (columnsOf (render (1 / 4) 0 px g)) i"
proof -
  let ?g0 = "computeForce g 0 px"
  let ?g1 = "subStep (1 / 8) ?g0"
  have r: "render (1 / 4) 0 px g = subStep (1 / 8) ?g1"
    unfolding render_rest by simp
  note c0 = computeForce_rest [OF assms(1), of px]
  have wf0: "wellFormed ?g0"
    using c0(1) by (simp add: groundInvariant_def)
  note a1 = subStep_abs [OF wf0 c0(2), of "1 / 8"]
  have g1: "groundInvariant ?g1"
    using wf0 by (rule subStep_invariant)
  note a2 = subStep_abs [OF a1(1,2), of "1 / 8"]
  have i0: "i < BLOCKS_PER_ROW ?g0"
    unfolding c0(3) by (rule assms(2))
  have i1: "i < BLOCKS_PER_ROW ?g1"
    unfolding a1(3) by (rule i0)
  have "thrownUp (columnsOf ?g0) i"
    using assms(3) by (simp add: thrownUp_def columnsOf_def c0(5,6))
  then have "heldDown (columnsOf ?g1) i"
    by (rule subStep_flips(2) [OF c0(1,2) i0])
  then show "thrownUp (columnsOf (render (1 / 4) 0 px g)) i"
    unfolding r by (rule subStep_flips(1) [OF g1 a1(2) i1])
  show "groundInvariant (render (1 / 4) 0 px g)"
    unfolding r using a1(1) by (rule subStep_invariant)
  show "BLOCKS_PER_ROW (render (1 / 4) 0 px g) = BLOCKS_PER_ROW g"
    unfolding r a2(3) a1(3) by (rule c0(3))
qed

lemma relax_thrown:
  assumes "groundInvariant g" "i < BLOCKS_PER_ROW g" "thrownUp (columnsOf g) i"
  shows "groundInvariant (relax (1 / 4) px m g) \<and>
         BLOCKS_PER_ROW (relax (1 / 4) px m g) = BLOCKS_PER_ROW g \<and>
         thrownUp (columnsOf (relax (1 / 4) px m g)) i"
proof (induction m)
  case 0
  then show ?case using assms by (simp add: relax_def)
next
  case (Suc m)
  let ?g = "relax (1 / 4) px m g"
  have ih: "groundInvariant ?g" "BLOCKS_PER_ROW ?g = BLOCKS_PER_ROW g" "thrownUp (columnsOf ?g) i"
    using Suc by simp_all
  have i: "i < BLOCKS_PER_ROW ?g"
    unfolding ih(2) by (rule assms(2))
  show ?case
    unfolding relax_Suc using render_thrown [OF ih(1) i ih(3), of px] ih(2) by simp
qed

text \<open>
  One tick of pressure on a ground at rest. The columns are followed through the loop of the
  code: those the loop has not reached are as they were, those it has passed stay as their
  step left them.
\<close>

lemma clamp_low: "x \<le> - 18 \<Longrightarrow> max (- MAX_OFFSET * 0.3) (min MAX_OFFSET x) = - 18"
  by (simp add: MAX_OFFSET_def max_def min_def)

lemma clamp_high: "60 \<le> x \<Longrightarrow> max (- MAX_OFFSET * 0.3) (min MAX_OFFSET x) = 60"
  by (simp add: MAX_OFFSET_def max_def min_def)

lemma columnStep_vel_other: "j \<noteq> i \<Longrightarrow> yVel (columnStep h g i) ! j = yVel g ! j"
  by (simp add: columnStep_def Let_def)

lemma sweep_untouched:
  "k \<le> j \<Longrightarrow>
   yOffset (foldl (columnStep h) g [0..<k]) ! j = yOffset g ! j \<and>
   yVel (foldl (columnStep h) g [0..<k]) ! j = yVel g ! j"
  by (induction k) (simp_all add: columnStep_other columnStep_vel_other)

lemma sweep_done:
  "j < k \<Longrightarrow>
   yOffset (foldl (columnStep h) g [0..<k]) ! j =
     yOffset (columnStep h (foldl (columnStep h) g [0..<j]) j) ! j \<and>
   yVel (foldl (columnStep h) g [0..<k]) ! j =
     yVel (columnStep h (foldl (columnStep h) g [0..<j]) j) ! j"
proof (induction k)
  case 0
  then show ?case by simp
next
  case (Suc k)
  show ?case
  proof (cases "j = k")
    case True
    then show ?thesis by simp
  next
    case False
    then have "j < k" using Suc.prems by simp
    then show ?thesis
      using Suc.IH False by (simp add: columnStep_other columnStep_vel_other)
  qed
qed

lemma neighbours_below:
  assumes "i < n"
  shows "nat (max 0 (int i - 1)) < n" "nat (min (int n - 1) (int i + 1)) < n"
  using assms by auto

lemma sweep_shape:
  assumes "wellFormed g" "k \<le> BLOCKS_PER_ROW g"
  shows "wellFormed (foldl (columnStep h) g [0..<k])"
    "BLOCKS_PER_ROW (foldl (columnStep h) g [0..<k]) = BLOCKS_PER_ROW g"
    "force (foldl (columnStep h) g [0..<k]) = force g"
  using sweep_prefix [of k g h] assms by (simp_all add: wellFormed_def)

lemma sweep_invariant:
  assumes "groundInvariant g" "k \<le> BLOCKS_PER_ROW g"
  shows "groundInvariant (foldl (columnStep h) g [0..<k])"
proof -
  let ?g = "foldl (columnStep h) g [0..<k]"
  have wf: "wellFormed g"
    using assms(1) by (simp add: groundInvariant_def)
  have len: "length (yOffset g) = BLOCKS_PER_ROW g"
    using wf by (simp add: wellFormed_def)
  note s = sweep_shape [OF wf assms(2), of h]
  have "offsetInRange (yOffset ?g ! j)" if "j < BLOCKS_PER_ROW g" for j
  proof (cases "j < k")
    case True
    then show ?thesis
      using sweep_prefix [of k g h] assms(2) len by simp
  next
    case False
    then have "yOffset ?g ! j = yOffset g ! j"
      using sweep_untouched [of k j h g] by simp
    then show ?thesis
      using assms(1) that by (simp add: groundInvariant_def)
  qed
  then show ?thesis
    using s by (simp add: groundInvariant_def)
qed

lemma sweep_rest_nonneg:
  assumes "wellFormed g" "atRest g" "pushedDown g" "0 \<le> h"
  shows "k \<le> BLOCKS_PER_ROW g \<Longrightarrow>
     \<forall>j < BLOCKS_PER_ROW g. 0 \<le> yOffset (foldl (columnStep h) g [0..<k]) ! j"
proof (induction k)
  case 0
  then show ?case using assms(2) by (simp add: atRest_def)
next
  case (Suc k)
  let ?n = "BLOCKS_PER_ROW g"
  let ?g = "foldl (columnStep h) g [0..<k]"
  have kn: "k < ?n" "k \<le> ?n"
    using Suc.prems by simp_all
  note s = sweep_shape [OF assms(1) kn(2), of h]
  have len: "length (yOffset ?g) = ?n"
    using s(1,2) by (simp add: wellFormed_def)
  have ih: "\<forall>j < ?n. 0 \<le> yOffset ?g ! j"
    using Suc.IH [OF kn(2)] .
  have c: "yOffset ?g ! k = 0" "yVel ?g ! k = 0"
    using sweep_untouched [of k k h g] assms(2) kn(1) by (simp_all add: atRest_def)
  have f: "0 \<le> force ?g ! k"
    unfolding s(3) using assms(3) kn(1) by (simp add: pushedDown_def)
  define yL where "yL = yOffset ?g ! nat (max 0 (int k - 1))"
  define yR where "yR = yOffset ?g ! nat (min (int ?n - 1) (int k + 1))"
  define a where "a = TENSION * (yL - 2 * 0 + yR) - STIFFNESS * 0 - DAMPING * 0 + force ?g ! k"
  have nb: "0 \<le> yL" "0 \<le> yR"
    unfolding yL_def yR_def using ih neighbours_below [OF kn(1)] by simp_all
  have a0: "0 \<le> a"
    unfolding a_def using nb f by (simp add: TENSION_def)
  have st: "columnStep h ?g k = ?g\<lparr>yVel := (yVel ?g)[k := 0 + a * h],
      yOffset := (yOffset ?g)[k := max (- MAX_OFFSET * 0.3) (min MAX_OFFSET (0 + (0 + a * h) * h))]\<rparr>"
    unfolding columnStep_def Let_def c s(2) yL_def [symmetric] yR_def [symmetric] a_def [symmetric]
    by simp
  have "0 \<le> (0 + a * h) * h"
    using a0 assms(4) by simp
  then have z: "0 \<le> max (- MAX_OFFSET * 0.3) (min MAX_OFFSET (0 + (0 + a * h) * h))"
    by (simp add: MAX_OFFSET_def)
  have "0 \<le> yOffset (columnStep h ?g k) ! j" if "j < ?n" for j
  proof (cases "j = k")
    case True
    then show ?thesis
      unfolding st using z len kn(1) by simp
  next
    case False
    then show ?thesis
      using ih that by (simp add: columnStep_other)
  qed
  then show ?case by simp
qed

text \<open>The first substep of the pressed tick puts the column under the player to its greatest depth.\<close>

lemma pressed_first:
  assumes "wellFormed g" "atRest g" "pushedDown g" "c < BLOCKS_PER_ROW g" "force g ! c = 4000"
  shows "yOffset (subStep (1 / 8) g) ! c = 60" "500 \<le> yVel (subStep (1 / 8) g) ! c"
proof -
  let ?n = "BLOCKS_PER_ROW g"
  let ?g = "foldl (columnStep (1 / 8)) g [0..<c]"
  have cn: "c \<le> ?n"
    using assms(4) by simp
  note s = sweep_shape [OF assms(1) cn, of "1 / 8"]
  have len: "length (yOffset ?g) = ?n" "length (yVel ?g) = ?n"
    using s(1,2) by (simp_all add: wellFormed_def)
  have nn: "\<forall>j < ?n. 0 \<le> yOffset ?g ! j"
    using assms(1,2,3) _ cn by (rule sweep_rest_nonneg) simp
  have u: "yOffset ?g ! c = 0" "yVel ?g ! c = 0"
    using sweep_untouched [of c c "1 / 8" g] assms(2,4) by (simp_all add: atRest_def)
  define yL where "yL = yOffset ?g ! nat (max 0 (int c - 1))"
  define yR where "yR = yOffset ?g ! nat (min (int ?n - 1) (int c + 1))"
  define a where "a = TENSION * (yL - 2 * 0 + yR) - STIFFNESS * 0 - DAMPING * 0 + 4000"
  have nb: "0 \<le> yL" "0 \<le> yR"
    unfolding yL_def yR_def using nn neighbours_below [OF assms(4)] by simp_all
  have a0: "4000 \<le> a"
    unfolding a_def using nb by (simp add: TENSION_def)
  have st: "columnStep (1 / 8) ?g c = ?g\<lparr>yVel := (yVel ?g)[c := 0 + a * (1 / 8)],
      yOffset := (yOffset ?g)[c := max (- MAX_OFFSET * 0.3)
         (min MAX_OFFSET (0 + (0 + a * (1 / 8)) * (1 / 8)))]\<rparr>"
    unfolding columnStep_def Let_def u s(2,3) assms(5) yL_def [symmetric] yR_def [symmetric]
      a_def [symmetric] by simp
  have d: "yOffset (subStep (1 / 8) g) ! c = yOffset (columnStep (1 / 8) ?g c) ! c"
    "yVel (subStep (1 / 8) g) ! c = yVel (columnStep (1 / 8) ?g c) ! c"
    unfolding subStep_def using sweep_done [of c ?n "1 / 8" g] assms(4) by simp_all
  have "60 \<le> 0 + (0 + a * (1 / 8)) * (1 / 8)"
    using a0 by argo
  then have cl: "max (- MAX_OFFSET * 0.3) (min MAX_OFFSET (0 + (0 + a * (1 / 8)) * (1 / 8))) = 60"
    by (rule clamp_high)
  show "yOffset (subStep (1 / 8) g) ! c = 60"
    unfolding d st cl using len assms(4) by simp
  show "500 \<le> yVel (subStep (1 / 8) g) ! c"
    unfolding d st using a0 len assms(4) by simp
qed

text \<open>The second substep, still pressed, throws it to its greatest height.\<close>

lemma pressed_second:
  assumes "groundInvariant g" "c < BLOCKS_PER_ROW g" "force g ! c = 4000"
    "yOffset g ! c = 60" "500 \<le> yVel g ! c"
  shows "yOffset (subStep (1 / 8) g) ! c = - 18" "yVel (subStep (1 / 8) g) ! c \<le> - 800"
proof -
  let ?n = "BLOCKS_PER_ROW g"
  let ?g = "foldl (columnStep (1 / 8)) g [0..<c]"
  have cn: "c \<le> ?n"
    using assms(2) by simp
  have wf: "wellFormed g"
    using assms(1) by (simp add: groundInvariant_def)
  note s = sweep_shape [OF wf cn, of "1 / 8"]
  have len: "length (yOffset ?g) = ?n" "length (yVel ?g) = ?n"
    using s(1,2) by (simp_all add: wellFormed_def)
  have "groundInvariant ?g"
    using assms(1) cn by (rule sweep_invariant)
  then have rg: "\<forall>j < ?n. - 18 \<le> yOffset ?g ! j \<and> yOffset ?g ! j \<le> 60"
    unfolding groundInvariant_def s(2) by (simp add: offsetInRange_def MAX_OFFSET_def)
  have u: "yOffset ?g ! c = 60"
    using sweep_untouched [of c c "1 / 8" g] assms(4) by simp
  have v: "yVel ?g ! c = yVel g ! c"
    using sweep_untouched [of c c "1 / 8" g] by simp
  define w where "w = yVel g ! c"
  define yL where "yL = yOffset ?g ! nat (max 0 (int c - 1))"
  define yR where "yR = yOffset ?g ! nat (min (int ?n - 1) (int c + 1))"
  define a where "a = TENSION * (yL - 2 * 60 + yR) - STIFFNESS * 60 - DAMPING * w + 4000"
  have nb: "yL \<le> 60" "yR \<le> 60"
    unfolding yL_def yR_def using rg neighbours_below [OF assms(2)] by simp_all
  have w5: "500 \<le> w"
    unfolding w_def by (rule assms(5))
  have a0: "w + a * (1 / 8) \<le> - 800"
    unfolding a_def TENSION_def STIFFNESS_def DAMPING_def using nb w5 by argo
  have st: "columnStep (1 / 8) ?g c = ?g\<lparr>yVel := (yVel ?g)[c := w + a * (1 / 8)],
      yOffset := (yOffset ?g)[c := max (- MAX_OFFSET * 0.3)
         (min MAX_OFFSET (60 + (w + a * (1 / 8)) * (1 / 8)))]\<rparr>"
    unfolding columnStep_def Let_def u v s(2,3) assms(3) w_def [symmetric] yL_def [symmetric]
      yR_def [symmetric] a_def [symmetric] by simp
  have d: "yOffset (subStep (1 / 8) g) ! c = yOffset (columnStep (1 / 8) ?g c) ! c"
    "yVel (subStep (1 / 8) g) ! c = yVel (columnStep (1 / 8) ?g c) ! c"
    unfolding subStep_def using sweep_done [of c ?n "1 / 8" g] assms(2) by simp_all
  have "60 + (w + a * (1 / 8)) * (1 / 8) \<le> - 18"
    using a0 by argo
  then have cl: "max (- MAX_OFFSET * 0.3) (min MAX_OFFSET (60 + (w + a * (1 / 8)) * (1 / 8))) = - 18"
    by (rule clamp_low)
  show "yOffset (subStep (1 / 8) g) ! c = - 18"
    unfolding d st cl using len assms(2) by simp
  show "yVel (subStep (1 / 8) g) ! c \<le> - 800"
    unfolding d st using a0 len assms(2) by simp
qed

lemma columnForce_nonneg: "0 \<le> depth \<Longrightarrow> 0 \<le> columnForce g depth c i"
  by (simp add: columnForce_def Let_def)

lemma columnForce_center:
  assumes "i < BLOCKS_PER_ROW g"
  shows "columnForce g 50 (int i) i = 4000"
proof -
  have "max 0 (int i - 6) \<le> int i \<and> int i \<le> min (int (BLOCKS_PER_ROW g) - 1) (int i + 6)"
    using assms by simp
  then show ?thesis
    by (simp add: columnForce_def Let_def)
qed

lemma render_pressed:
  assumes "wellFormed g" "atRest g" "c < BLOCKS_PER_ROW g" "centerCol g px = int c"
  shows "groundInvariant (render (1 / 4) 50 px g)"
    "BLOCKS_PER_ROW (render (1 / 4) 50 px g) = BLOCKS_PER_ROW g"
    "thrownUp (columnsOf (render (1 / 4) 50 px g)) c"
proof -
  let ?n = "BLOCKS_PER_ROW g"
  let ?g0 = "computeForce g 50 px"
  let ?g1 = "subStep (1 / 8) ?g0"
  let ?g2 = "subStep (1 / 8) ?g1"
  have r: "render (1 / 4) 50 px g = ?g2"
    by (simp add: render_def Let_def)
  have n0: "BLOCKS_PER_ROW ?g0 = ?n"
    by (simp add: computeForce_def)
  have w0: "wellFormed ?g0"
    using assms(1) by (rule computeForce_wellFormed)
  have r0: "atRest ?g0"
    using assms(2) by (simp add: atRest_def computeForce_def)
  have p0: "pushedDown ?g0"
    by (simp add: pushedDown_def computeForce_def columnForce_nonneg)
  have f0: "force ?g0 ! c = 4000"
    using assms(3) by (simp add: computeForce_def assms(4) columnForce_center)
  have c0: "c < BLOCKS_PER_ROW ?g0"
    unfolding n0 by (rule assms(3))
  note s1 = sweep_shape [OF w0 order_refl, of "1 / 8", folded subStep_def]
  have i1: "groundInvariant ?g1"
    using w0 by (rule subStep_invariant)
  have c1: "c < BLOCKS_PER_ROW ?g1"
    unfolding s1(2) by (rule c0)
  have f1: "force ?g1 ! c = 4000"
    unfolding s1(3) by (rule f0)
  note a = pressed_first [OF w0 r0 p0 c0 f0]
  note b = pressed_second [OF i1 c1 f1 a]
  note s2 = sweep_shape [OF s1(1) order_refl, of "1 / 8", folded subStep_def]
  show "groundInvariant (render (1 / 4) 50 px g)"
    unfolding r using s1(1) by (rule subStep_invariant)
  show "BLOCKS_PER_ROW (render (1 / 4) 50 px g) = ?n"
    unfolding r s2(2) s1(2) by (rule n0)
  show "thrownUp (columnsOf (render (1 / 4) 50 px g)) c"
    unfolding r thrownUp_def columnsOf_def using b by simp
qed

lemma newGround_720:
  "wellFormed (newGround 720)" "atRest (newGround 720)" "BLOCKS_PER_ROW (newGround 720) = 16"
  "centerCol (newGround 720) (Some 360) = 5"
proof -
  have c: "\<lceil>720 / 64 :: real\<rceil> = 12"
    by (simp add: ceiling_eq_iff)
  show n: "BLOCKS_PER_ROW (newGround 720) = 16"
    by (simp add: newGround_def BLOCK_SIZE_def Let_def c)
  show "wellFormed (newGround 720)"
    using newGround_invariant [of 720] by (simp add: groundInvariant_def)
  show "atRest (newGround 720)"
    unfolding atRest_def n by (simp add: newGround_def BLOCK_SIZE_def Let_def c)
  have "\<lfloor>360 / 64 :: real\<rfloor> = 5"
    by (simp add: floor_eq_iff)
  then show "centerCol (newGround 720) (Some 360) = 5"
    by (simp add: centerCol_def BLOCK_SIZE_def)
qed

text \<open>
  C10 (as stated: the ground is critically or over-damped, and comes to rest from every
  state after an impulse). The constants of the ground are DAMPING = 18 and STIFFNESS = 90:
  the square of the damping is 324, below 4 * STIFFNESS = 360, the bound of critical damping
  for a single column, so the ground is under-damped. And the claim names no tick length,
  while \<^verbatim>\<open>render\<close> takes any and the death animation passes it the frame time as it is.
  With ticks of 1/4 s, a strip of five columns at rest whose middle column is pressed down
  to MAX_OFFSET has that column at MAX_OFFSET again at the end of every tick; and a ground
  720 px wide at rest, pressed 50 px deep for one tick by a player at x = 360 and left alone
  from then on, has the column under the player at -0.3 * MAX_OFFSET at the end of every
  tick, for ever.
\<close>

theorem C10_underdamped_and_stuck_at_long_ticks:
  "DAMPING\<^sup>2 < 4 * STIFFNESS \<and>
   (\<forall>m. yOffset (relax (1 / 4) None m pressedGround) ! 2 = MAX_OFFSET) \<and>
   (\<forall>m. yOffset (relax (1 / 4) (Some 360) m (render (1 / 4) 50 (Some 360) (newGround 720))) ! 5
          = - MAX_OFFSET * 0.3)"
proof -
  have a: "yOffset (relax (1 / 4) None m pressedGround) ! 2 = MAX_OFFSET" for m
    using relax_held [OF pressedGround_facts(1) _ pressedGround_facts(3), of None m]
    by (simp add: pressedGround_facts(2) heldDown_def columnsOf_def MAX_OFFSET_def)
  note g = newGround_720
  have c: "(5 :: nat) < BLOCKS_PER_ROW (newGround 720)"
    unfolding g(3) by simp
  have cc: "centerCol (newGround 720) (Some 360) = int 5"
    unfolding g(4) by simp
  note p = render_pressed [OF g(1,2) c cc]
  have c': "5 < BLOCKS_PER_ROW (render (1 / 4) 50 (Some 360) (newGround 720))"
    unfolding p(2) by (rule c)
  have b: "yOffset (relax (1 / 4) (Some 360) m (render (1 / 4) 50 (Some 360) (newGround 720))) ! 5
      = - MAX_OFFSET * 0.3" for m
    using relax_thrown [OF p(1) c' p(3), of "Some 360" m]
    by (simp add: thrownUp_def columnsOf_def MAX_OFFSET_def)
  show ?thesis
    using a b by (simp add: DAMPING_def STIFFNESS_def)
qed

text \<open>
  C10 (amended): every state a tick leaves behind, whatever the pressure and the length of
  that tick, has one entry per column and every offset in the range of the clamp. From any
  such state, whatever its velocities, with ticks of at most 1/15 s and no pressure on all
  subsequent ticks, wherever the player stands: the spring energy never grows and is divided
  by (1 + 3 (dt/2)(dt/2)) squared at least with every tick; so once N sweeps have halved the
  energy k times down to 45/4, the energy of a single column half a pixel off, every column
  offset is within 0.5 px of 0, and stays there; such a number of ticks exists for every
  state. The ground is under-damped: the return to rest is a decaying oscillation, not a
  monotone one.
\<close>

theorem C10_offsets_decay:
  "DAMPING\<^sup>2 < 4 * STIFFNESS \<and>
   (wellFormed g0 \<longrightarrow> groundInvariant (render dt0 depressionDepth playerX0 g0)) \<and>
   (groundInvariant g \<and> 0 \<le> dt \<and> dt \<le> 1 / 15 \<longrightarrow>
      render dt 0 playerX g = render dt 0 None g \<and>
      (1 + 3 * (dt / 2)\<^sup>2) ^ (2 * m) * springEnergy (relax dt playerX m g) \<le> springEnergy g \<and>
      springEnergy (relax dt playerX (Suc m) g) \<le> springEnergy (relax dt playerX m g) \<and>
      (1 \<le> 3 * (dt / 2)\<^sup>2 * real N \<and> springEnergy g \<le> 45 / 4 * 2 ^ k \<and> k * N \<le> 2 * m \<longrightarrow>
         (\<forall>i < BLOCKS_PER_ROW g. \<bar>yOffset (relax dt playerX m g) ! i\<bar> \<le> 1 / 2)) \<and>
      (0 < dt \<longrightarrow>
         (\<exists>M. \<forall>n \<ge> M. \<forall>i < BLOCKS_PER_ROW g.
            \<bar>yOffset (relax dt playerX n g) ! i\<bar> \<le> 1 / 2)))"
proof -
  have u: "DAMPING\<^sup>2 < 4 * STIFFNESS"
    by (simp add: DAMPING_def STIFFNESS_def)
  have r: "groundInvariant (render dt0 depressionDepth playerX0 g0)" if "wellFormed g0"
    using that by (rule render_invariant)
  have p: "render dt 0 playerX g = render dt 0 None g"
    by (rule render_any_player)
  have d: "(1 + 3 * (dt / 2)\<^sup>2) ^ (2 * m) * springEnergy (relax dt playerX m g) \<le> springEnergy g"
    if "groundInvariant g" "0 \<le> dt" "dt \<le> 1 / 15"
    using relax_decay [OF that, of playerX m] by simp
  have mono: "springEnergy (relax dt playerX (Suc m) g) \<le> springEnergy (relax dt playerX m g)"
    if "groundInvariant g" "0 \<le> dt" "dt \<le> 1 / 15"
    using that by (rule relax_mono)
  have s: "\<bar>yOffset (relax dt playerX m g) ! i\<bar> \<le> 1 / 2"
    if "groundInvariant g" "0 \<le> dt" "dt \<le> 1 / 15"
      "1 \<le> 3 * (dt / 2)\<^sup>2 * real N" "springEnergy g \<le> 45 / 4 * 2 ^ k" "k * N \<le> 2 * m"
      "i < BLOCKS_PER_ROW g" for i
    using that by (rule relax_settled)
  have e: "\<exists>M. \<forall>n \<ge> M. \<forall>i < BLOCKS_PER_ROW g. \<bar>yOffset (relax dt playerX n g) ! i\<bar> \<le> 1 / 2"
    if "groundInvariant g" "dt \<le> 1 / 15" "0 < dt"
    using that by (rule relax_comes_to_rest)
  show ?thesis
    using u r p d mono s e by blast
qed

theorem C10_offsets_decay_witness:
  "groundInvariant pressedGround \<and> springEnergy pressedGround = 810000 \<and>
   yOffset pressedGround ! 2 = 60 \<and>
   \<bar>yOffset (relax (1 / 120) None 163200 pressedGround) ! 2\<bar> \<le> 1 / 2 \<and>
   \<bar>yOffset (relax (1 / 15) None 2550 pressedGround) ! 2\<bar> \<le> 1 / 2 \<and>
   wellFormed (newGround 720) \<and>
   (\<exists>M. \<forall>n \<ge> M.
      \<bar>yOffset (relax (1 / 120) (Some 360) n (render (1 / 120) 50 (Some 360) (newGround 720))) ! 5\<bar>
        \<le> 1 / 2)"
proof -
  note f = pressedGround_facts
  note g = newGround_720
  let ?p = "render (1 / 120) 50 (Some 360) (newGround 720)"
  have y: "yOffset pressedGround ! 2 = 60"
    by (simp add: pressedGround_def)
  have "\<forall>i < BLOCKS_PER_ROW pressedGround.
      \<bar>yOffset (relax (1 / 120) None 163200 pressedGround) ! i\<bar> \<le> 1 / 2"
    using C10_offsets_decay [where g = pressedGround and dt = "1 / 120" and playerX = None
        and m = 163200 and N = 19200 and k = 17] f(1)
    by (simp add: f(4) power2_eq_square)
  then have a: "\<bar>yOffset (relax (1 / 120) None 163200 pressedGround) ! 2\<bar> \<le> 1 / 2"
    unfolding f(2) by simp
  have "\<forall>i < BLOCKS_PER_ROW pressedGround.
      \<bar>yOffset (relax (1 / 15) None 2550 pressedGround) ! i\<bar> \<le> 1 / 2"
    using C10_offsets_decay [where g = pressedGround and dt = "1 / 15" and playerX = None
        and m = 2550 and N = 300 and k = 17] f(1)
    by (simp add: f(4) power2_eq_square)
  then have b: "\<bar>yOffset (relax (1 / 15) None 2550 pressedGround) ! 2\<bar> \<le> 1 / 2"
    unfolding f(2) by simp
  have i: "groundInvariant ?p"
    using C10_offsets_decay [where ?g0.0 = "newGround 720" and ?dt0.0 = "1 / 120"
        and depressionDepth = 50 and ?playerX0.0 = "Some 360"] g(1)
    by blast
  have n: "BLOCKS_PER_ROW ?p = 16"
    using render_shape [OF g(1), of "1 / 120" 50 "Some 360"] g(3) by simp
  have "\<exists>M. \<forall>n \<ge> M. \<forall>i < BLOCKS_PER_ROW ?p.
      \<bar>yOffset (relax (1 / 120) (Some 360) n ?p) ! i\<bar> \<le> 1 / 2"
    using C10_offsets_decay [where g = ?p and dt = "1 / 120" and playerX = "Some 360"] i
    by simp
  then obtain M where M: "\<forall>n \<ge> M. \<forall>i < BLOCKS_PER_ROW ?p.
      \<bar>yOffset (relax (1 / 120) (Some 360) n ?p) ! i\<bar> \<le> 1 / 2"
    by blast
  have "5 < BLOCKS_PER_ROW ?p"
    unfolding n by simp
  then have "\<forall>n \<ge> M. \<bar>yOffset (relax (1 / 120) (Some 360) n ?p) ! 5\<bar> \<le> 1 / 2"
    using M by blast
  then have c: "\<exists>M. \<forall>n \<ge> M. \<bar>yOffset (relax (1 / 120) (Some 360) n ?p) ! 5\<bar> \<le> 1 / 2"
    by blast
  show ?thesis
    using f(1,4) y a b g(1) c by blast
qed

end
